theory Spec2Isabelle
  imports Main
begin

section \<open>The low-level tokenizer of PDF syntax (low_level_tokenizer.py)\<close>

subsection \<open>Tokens\<close>

text \<open>The enum \<open>TokenType\<close>, with the members in the order of the source.\<close>

datatype TokenType =
    NUMBER | STRING | HEX_STRING | NAME | COMMENT | START_ARRAY | END_ARRAY
  | START_DICT | END_DICT | REF | OBJ | END_OBJ | OTHER | END_OF_FILE

text \<open>The class \<open>Token\<close>. Its field \<open>text\<close> is named \<open>text_str\<close> here.
  \<open>byte_offset\<close> is a Python int: it is computed as \<open>tell() - 1\<close>.\<close>

record Token =
  byte_offset :: int
  token_type :: TokenType
  text_str :: string

text \<open>The exceptions that the modelled code can raise: a failed \<open>assert\<close> statement
  raises \<open>AssertionError\<close> (without a message), and an absolute seek to a negative
  offset raises \<open>ValueError\<close>.\<close>

datatype error = AssertionError | ValueError

subsection \<open>The byte source\<close>

text \<open>\<open>io_source\<close> is a seekable binary stream (an \<open>io.BytesIO\<close>): its bytes and
  its current position. A byte is a \<open>char\<close> (8 bits), which is also what decoding
  one byte as latin-1 gives. The position may lie beyond the last byte.\<close>

record io_source =
  buf :: string
  pos :: nat

datatype whence = SEEK_SET | SEEK_CUR | SEEK_END

text \<open>\<open>io_source.seek(offset, whence)\<close>: an absolute seek to a negative offset raises
  \<open>ValueError\<close>; a relative seek that would end before the first byte ends at 0.
  It returns the new position.\<close>

definition io_seek :: "io_source \<Rightarrow> int \<Rightarrow> whence \<Rightarrow> (error + int) \<times> io_source" where
  "io_seek s off w =
     (case w of
        SEEK_SET \<Rightarrow>
          if off < 0 then (Inl ValueError, s) else (Inr off, s\<lparr>pos := nat off\<rparr>)
      | SEEK_CUR \<Rightarrow>
          (let p = max 0 (int (pos s) + off) in (Inr p, s\<lparr>pos := nat p\<rparr>))
      | SEEK_END \<Rightarrow>
          (let p = max 0 (int (length (buf s)) + off) in (Inr p, s\<lparr>pos := nat p\<rparr>)))"

text \<open>\<open>LowLevelTokenizer.seek\<close> and \<open>LowLevelTokenizer.tell\<close> pass through to the
  byte source.\<close>

definition seek :: "io_source \<Rightarrow> int \<Rightarrow> whence \<Rightarrow> (error + int) \<times> io_source" where
  "seek s off w = io_seek s off w"

definition tell :: "io_source \<Rightarrow> int" where
  "tell s = int (pos s)"

text \<open>\<open>_next_char\<close> is \<open>io_source.read(1).decode("latin-1")\<close>: a string of one
  character, and the position one further, or the empty string at the end of the
  source, the position unchanged. The result is modelled as a \<open>char option\<close>:
  \<open>None\<close> is the empty string, so \<open>len(ch) == 0\<close> is \<open>ch = None\<close>;
  \<open>str_of\<close> gives the Python string back.\<close>

definition next_char :: "io_source \<Rightarrow> char option \<times> io_source" where
  "next_char s =
     (if pos s < length (buf s) then (Some (buf s ! pos s), s\<lparr>pos := pos s + 1\<rparr>)
      else (None, s))"

fun str_of :: "char option \<Rightarrow> string" where
  "str_of None = []"
| "str_of (Some c) = [c]"

text \<open>\<open>_prev_char\<close> is \<open>io_source.seek(-1, io.SEEK_CUR)\<close>.\<close>

definition prev_char :: "io_source \<Rightarrow> io_source" where
  "prev_char s = snd (io_seek s (- 1) SEEK_CUR)"

subsection \<open>Character classes\<close>

text \<open>\<open>_is_delimiter\<close> and \<open>_is_whitespace\<close> test \<open>ord(ch)\<close> against a list.
  They are only called on a string of one character.\<close>

definition is_delimiter :: "char \<Rightarrow> bool" where
  "is_delimiter c =
     ((of_char c :: int) \<in> set [- 1, 0, 9, 10, 12, 13, 32, 37, 40, 41, 47, 60, 62, 91, 93])"

definition is_whitespace :: "char \<Rightarrow> bool" where
  "is_whitespace c = ((of_char c :: int) \<in> set [0, 9, 10, 12, 13, 32])"

text \<open>Python's \<open>sub in s\<close> on strings: \<open>sub\<close> occurs in \<open>s\<close> as a substring. The
  empty string occurs in every string.\<close>

fun py_in :: "string \<Rightarrow> string \<Rightarrow> bool" where
  "py_in sub [] = (sub = [])"
| "py_in sub (c # cs) = (take (length sub) (c # cs) = sub \<or> py_in sub cs)"

definition number_chars :: string where
  "number_chars = ''-+.0123456789''"

definition backslash :: char where
  "backslash = CHR 0x5C"

text \<open>\<open>out_str.endswith("\\")\<close>\<close>

definition endswith_backslash :: "string \<Rightarrow> bool" where
  "endswith_backslash out_str = (out_str \<noteq> [] \<and> last out_str = backslash)"

subsection \<open>The loops of \<open>next_token\<close>\<close>

text \<open>The whitespace skip:
  \<^verbatim>\<open>while len(ch) > 0 and self._is_whitespace(ch): ch = self._next_char()\<close>\<close>

function ws_loop :: "char option \<Rightarrow> io_source \<Rightarrow> char option \<times> io_source" where
  "ws_loop ch s =
     (case ch of
        None \<Rightarrow> (ch, s)
      | Some c \<Rightarrow>
          if is_whitespace c then (case next_char s of (ch', s') \<Rightarrow> ws_loop ch' s')
          else (ch, s))"
  by pat_completeness auto
termination
  by (relation "measure (\<lambda>(ch, s). case ch of None \<Rightarrow> 0 | Some c \<Rightarrow> Suc (length (buf s) - pos s))")
     (auto simp: next_char_def split: if_splits option.splits)

text \<open>The name loop:
  \<^verbatim>\<open>while True:
    ch = self._next_char()
    if len(ch) == 0: break
    if self._is_delimiter(ch): break
    out_str += ch\<close>\<close>

function name_loop :: "string \<Rightarrow> io_source \<Rightarrow> char option \<times> string \<times> io_source" where
  "name_loop out_str s =
     (case next_char s of (ch, s') \<Rightarrow>
        (case ch of
           None \<Rightarrow> (ch, out_str, s')
         | Some c \<Rightarrow>
             if is_delimiter c then (ch, out_str, s')
             else name_loop (out_str @ [c]) s'))"
  by pat_completeness auto
termination
  by (relation "measure (\<lambda>(out_str, s). length (buf s) - pos s)")
     (auto simp: next_char_def split: if_splits)

text \<open>The comment, number and other loops have one shape and differ in the test
  \<open>P\<close> on the character:
  \<^verbatim>\<open>while len(ch) != 0 and P(ch):
    out_str += ch
    ch = self._next_char()\<close>\<close>

function scan_while ::
  "(char \<Rightarrow> bool) \<Rightarrow> char option \<Rightarrow> string \<Rightarrow> io_source \<Rightarrow> char option \<times> string \<times> io_source"
where
  "scan_while P ch out_str s =
     (case ch of
        None \<Rightarrow> (ch, out_str, s)
      | Some c \<Rightarrow>
          if P c then (case next_char s of (ch', s') \<Rightarrow> scan_while P ch' (out_str @ [c]) s')
          else (ch, out_str, s))"
  by pat_completeness auto
termination
  by (relation "measure (\<lambda>(P, ch, out_str, s). case ch of None \<Rightarrow> 0 | Some c \<Rightarrow> Suc (length (buf s) - pos s))")
     (auto simp: next_char_def split: if_splits option.splits)

text \<open>\<^verbatim>\<open>while len(ch) != 0 and ch != "\r" and ch != "\n"\<close>\<close>

definition comment_loop :: "char option \<Rightarrow> string \<Rightarrow> io_source \<Rightarrow> char option \<times> string \<times> io_source" where
  "comment_loop = scan_while (\<lambda>c. c \<noteq> CHR 0x0D \<and> c \<noteq> CHR 0x0A)"

text \<open>\<^verbatim>\<open>while len(ch) != 0 and ch in "-+.0123456789"\<close>\<close>

definition number_loop :: "char option \<Rightarrow> string \<Rightarrow> io_source \<Rightarrow> char option \<times> string \<times> io_source" where
  "number_loop = scan_while (\<lambda>c. py_in [c] number_chars)"

text \<open>\<^verbatim>\<open>while len(ch) != 0 and not self._is_delimiter(ch)\<close>\<close>

definition other_loop :: "char option \<Rightarrow> string \<Rightarrow> io_source \<Rightarrow> char option \<times> string \<times> io_source" where
  "other_loop = scan_while (\<lambda>c. \<not> is_delimiter c)"

text \<open>The hex string loop:
  \<^verbatim>\<open>while True:
    ch = self._next_char()
    if len(ch) == 0: break
    out_str += ch
    if ch == ">": break\<close>\<close>

function hex_loop :: "string \<Rightarrow> io_source \<Rightarrow> char option \<times> string \<times> io_source" where
  "hex_loop out_str s =
     (case next_char s of (ch, s') \<Rightarrow>
        (case ch of
           None \<Rightarrow> (ch, out_str, s')
         | Some c \<Rightarrow>
             if c = CHR ''>'' then (ch, out_str @ [c], s')
             else hex_loop (out_str @ [c]) s'))"
  by pat_completeness auto
termination
  by (relation "measure (\<lambda>(out_str, s). length (buf s) - pos s)")
     (auto simp: next_char_def split: if_splits)

text \<open>The literal string loop:
  \<^verbatim>\<open>while True:
    ch = self._next_char()
    if len(ch) == 0: break
    if ch == "\\":
        ch = self._next_char()
        out_str += "\\" + ch
        continue
    if ch == "(": bracket_nesting_level += 1
    if ch == ")": bracket_nesting_level -= 1
    out_str += ch
    if bracket_nesting_level == 0: break\<close>\<close>

function string_loop ::
  "int \<Rightarrow> string \<Rightarrow> io_source \<Rightarrow> char option \<times> int \<times> string \<times> io_source"
where
  "string_loop bracket_nesting_level out_str s =
     (case next_char s of (ch, s') \<Rightarrow>
        (case ch of
           None \<Rightarrow> (ch, bracket_nesting_level, out_str, s')
         | Some c \<Rightarrow>
             if c = backslash then
               (case next_char s' of (ch2, s'') \<Rightarrow>
                  string_loop bracket_nesting_level (out_str @ [backslash] @ str_of ch2) s'')
             else
               (let lvl1 = (if c = CHR ''('' then bracket_nesting_level + 1 else bracket_nesting_level);
                    lvl2 = (if c = CHR '')'' then lvl1 - 1 else lvl1);
                    out_str' = out_str @ [c]
                in if lvl2 = 0 then (ch, lvl2, out_str', s')
                   else string_loop lvl2 out_str' s')))"
  by pat_completeness auto
termination
  by (relation "measure (\<lambda>(lvl, out_str, s). length (buf s) - pos s)")
     (auto simp: next_char_def split: if_splits)

subsection \<open>\<open>next_token\<close>\<close>

text \<open>The part of \<open>next_token\<close> after the whitespace skip (lines 105 to 215): the
  chain of \<open>if\<close> statements on \<open>ch\<close>, each returning a token. \<open>ch\<close> is the
  character read last and \<open>s\<close> the byte source after that read. A failed \<open>assert\<close>
  is the result \<open>Inl AssertionError\<close>; the byte source is returned as the
  exception leaves it.

  The test \<open>ch in "-+.0123456789"\<close> of the number case is a substring test on
  \<open>ch\<close>, a string of one character or none.\<close>

definition dispatch :: "char option \<Rightarrow> io_source \<Rightarrow> (error + Token option) \<times> io_source" where
  "dispatch ch s =
     (if ch = Some CHR ''['' then
        (Inr (Some \<lparr>byte_offset = tell s - 1, token_type = START_ARRAY, text_str = ''[''\<rparr>), s)
      else if ch = Some CHR '']'' then
        (Inr (Some \<lparr>byte_offset = tell s - 1, token_type = END_ARRAY, text_str = '']''\<rparr>), s)
      else if ch = Some CHR ''/'' then
        (let out_pos = tell s - 1 in
         case name_loop ''/'' s of (ch, out_str, s) \<Rightarrow>
           let s = (if ch \<noteq> None then prev_char s else s) in
           (Inr (Some \<lparr>byte_offset = out_pos, token_type = NAME, text_str = out_str\<rparr>), s))
      else if ch = Some CHR ''>'' then
        (let out_pos = tell s - 1 in
         case next_char s of (ch, s) \<Rightarrow>
           if ch \<noteq> Some CHR ''>'' then (Inl AssertionError, s)
           else (Inr (Some \<lparr>byte_offset = out_pos, token_type = END_DICT, text_str = ''>>''\<rparr>), s))
      else if ch = Some CHR ''%'' then
        (let out_pos = tell s - 1 in
         case comment_loop ch [] s of (ch, out_str, s) \<Rightarrow>
           let s = (if ch \<noteq> None then prev_char s else s) in
           (Inr (Some \<lparr>byte_offset = out_pos, token_type = COMMENT, text_str = out_str\<rparr>), s))
      else if ch = Some CHR ''<'' then
        (let out_pos = tell s - 1 in
         case next_char s of (ch, s) \<Rightarrow>
           if ch = Some CHR ''<'' then
             (Inr (Some \<lparr>byte_offset = out_pos, token_type = START_DICT, text_str = ''<<''\<rparr>), s)
           else if ch = Some CHR ''>'' then
             (Inr (Some \<lparr>byte_offset = out_pos, token_type = HEX_STRING, text_str = ''<>''\<rparr>), s)
           else
             (case hex_loop (''<'' @ str_of ch) s of (ch, out_str, s) \<Rightarrow>
                (Inr (Some \<lparr>byte_offset = out_pos, token_type = HEX_STRING, text_str = out_str\<rparr>), s)))
      else if py_in (str_of ch) number_chars then
        (let out_pos = tell s - 1 in
         case number_loop ch [] s of (ch, out_str, s) \<Rightarrow>
           let s = (if ch \<noteq> None then prev_char s else s) in
           (Inr (Some \<lparr>byte_offset = out_pos, token_type = NUMBER, text_str = out_str\<rparr>), s))
      else if ch = Some CHR ''('' then
        (let out_pos = tell s - 1 in
         case string_loop 1 ''('' s of (ch, bracket_nesting_level, out_str, s) \<Rightarrow>
           if ch = None then (Inl AssertionError, s)
           else if endswith_backslash out_str then (Inl AssertionError, s)
           else (Inr (Some \<lparr>byte_offset = out_pos, token_type = STRING, text_str = out_str\<rparr>), s))
      else
        (let out_pos = tell s - 1 in
         case other_loop ch [] s of (ch, out_str, s) \<Rightarrow>
           let s = (if ch \<noteq> None then prev_char s else s) in
           (Inr (Some \<lparr>byte_offset = out_pos, token_type = OTHER, text_str = out_str\<rparr>), s)))"

text \<open>\<open>next_token\<close>: the result is the token, or \<open>None\<close> (the end of the stream),
  or the exception raised, together with the byte source after the call.\<close>

definition next_token :: "io_source \<Rightarrow> (error + Token option) \<times> io_source" where
  "next_token s =
     (case next_char s of (ch, s) \<Rightarrow>
        if ch = None then (Inr None, s)
        else (case ws_loop ch s of (ch, s) \<Rightarrow> dispatch ch s))"

subsection \<open>\<open>next_non_comment_token\<close>\<close>

text \<open>The loop of \<open>next_non_comment_token\<close>:
  \<^verbatim>\<open>while t is not None and t.token_type == TokenType.COMMENT:
    t = self.next_token()\<close>
  An exception of \<open>next_token\<close> ends the loop and is the result. The loop ends
  because a comment token takes at least its \<open>%\<close> from the source; the proof is
  further down.\<close>

function non_comment_loop :: "Token option \<Rightarrow> io_source \<Rightarrow> (error + Token option) \<times> io_source" where
  "non_comment_loop t s =
     (case t of
        None \<Rightarrow> (Inr t, s)
      | Some tok \<Rightarrow>
          if token_type tok = COMMENT then
            (case next_token s of
               (Inl e, s') \<Rightarrow> (Inl e, s')
             | (Inr t', s') \<Rightarrow> non_comment_loop t' s')
          else (Inr t, s))"
  by pat_completeness auto

definition next_non_comment_token :: "io_source \<Rightarrow> (error + Token option) \<times> io_source" where
  "next_non_comment_token s =
     (case next_token s of
        (Inl e, s') \<Rightarrow> (Inl e, s')
      | (Inr t, s') \<Rightarrow> non_comment_loop t s')"

subsection \<open>The loops as \<open>while\<close> loops that need not end\<close>

text \<open>The functions above are total: each comes with a proof that its recursion ends.
  To state that the loops of the source end, they are defined here a second time, each
  as the \<open>while\<close> loop that it is, with no argument about its end: the result is
  \<open>Some\<close> of what the loop returns, and \<open>None\<close> when it runs forever.
  \<open>dispatch_opt\<close> and \<open>next_token_opt\<close> are \<open>dispatch\<close> and \<open>next_token\<close> over
  these loops.\<close>

partial_function (option) ws_while :: "char option \<Rightarrow> io_source \<Rightarrow> (char option \<times> io_source) option" where
  "ws_while ch s =
     (case ch of
        None \<Rightarrow> Some (ch, s)
      | Some c \<Rightarrow>
          if is_whitespace c then (case next_char s of (ch', s') \<Rightarrow> ws_while ch' s')
          else Some (ch, s))"

partial_function (option) name_while :: "string \<Rightarrow> io_source \<Rightarrow> (char option \<times> string \<times> io_source) option" where
  "name_while out_str s =
     (case next_char s of (ch, s') \<Rightarrow>
        (case ch of
           None \<Rightarrow> Some (ch, out_str, s')
         | Some c \<Rightarrow>
             if is_delimiter c then Some (ch, out_str, s')
             else name_while (out_str @ [c]) s'))"

partial_function (option) scan_while_opt ::
  "(char \<Rightarrow> bool) \<Rightarrow> char option \<Rightarrow> string \<Rightarrow> io_source \<Rightarrow> (char option \<times> string \<times> io_source) option"
where
  "scan_while_opt P ch out_str s =
     (case ch of
        None \<Rightarrow> Some (ch, out_str, s)
      | Some c \<Rightarrow>
          if P c then (case next_char s of (ch', s') \<Rightarrow> scan_while_opt P ch' (out_str @ [c]) s')
          else Some (ch, out_str, s))"

partial_function (option) hex_while :: "string \<Rightarrow> io_source \<Rightarrow> (char option \<times> string \<times> io_source) option" where
  "hex_while out_str s =
     (case next_char s of (ch, s') \<Rightarrow>
        (case ch of
           None \<Rightarrow> Some (ch, out_str, s')
         | Some c \<Rightarrow>
             if c = CHR ''>'' then Some (ch, out_str @ [c], s')
             else hex_while (out_str @ [c]) s'))"

partial_function (option) string_while ::
  "int \<Rightarrow> string \<Rightarrow> io_source \<Rightarrow> (char option \<times> int \<times> string \<times> io_source) option"
where
  "string_while bracket_nesting_level out_str s =
     (case next_char s of (ch, s') \<Rightarrow>
        (case ch of
           None \<Rightarrow> Some (ch, bracket_nesting_level, out_str, s')
         | Some c \<Rightarrow>
             if c = backslash then
               (case next_char s' of (ch2, s'') \<Rightarrow>
                  string_while bracket_nesting_level (out_str @ [backslash] @ str_of ch2) s'')
             else
               (let lvl1 = (if c = CHR ''('' then bracket_nesting_level + 1 else bracket_nesting_level);
                    lvl2 = (if c = CHR '')'' then lvl1 - 1 else lvl1);
                    out_str' = out_str @ [c]
                in if lvl2 = 0 then Some (ch, lvl2, out_str', s')
                   else string_while lvl2 out_str' s')))"

definition dispatch_opt :: "char option \<Rightarrow> io_source \<Rightarrow> ((error + Token option) \<times> io_source) option" where
  "dispatch_opt ch s =
     (if ch = Some CHR ''['' then
        Some (Inr (Some \<lparr>byte_offset = tell s - 1, token_type = START_ARRAY, text_str = ''[''\<rparr>), s)
      else if ch = Some CHR '']'' then
        Some (Inr (Some \<lparr>byte_offset = tell s - 1, token_type = END_ARRAY, text_str = '']''\<rparr>), s)
      else if ch = Some CHR ''/'' then
        (let out_pos = tell s - 1 in
         case name_while ''/'' s of None \<Rightarrow> None | Some (ch, out_str, s) \<Rightarrow>
           let s = (if ch \<noteq> None then prev_char s else s) in
           Some (Inr (Some \<lparr>byte_offset = out_pos, token_type = NAME, text_str = out_str\<rparr>), s))
      else if ch = Some CHR ''>'' then
        (let out_pos = tell s - 1 in
         case next_char s of (ch, s) \<Rightarrow>
           if ch \<noteq> Some CHR ''>'' then Some (Inl AssertionError, s)
           else Some (Inr (Some \<lparr>byte_offset = out_pos, token_type = END_DICT, text_str = ''>>''\<rparr>), s))
      else if ch = Some CHR ''%'' then
        (let out_pos = tell s - 1 in
         case scan_while_opt (\<lambda>c. c \<noteq> CHR 0x0D \<and> c \<noteq> CHR 0x0A) ch [] s of
           None \<Rightarrow> None
         | Some (ch, out_str, s) \<Rightarrow>
           let s = (if ch \<noteq> None then prev_char s else s) in
           Some (Inr (Some \<lparr>byte_offset = out_pos, token_type = COMMENT, text_str = out_str\<rparr>), s))
      else if ch = Some CHR ''<'' then
        (let out_pos = tell s - 1 in
         case next_char s of (ch, s) \<Rightarrow>
           if ch = Some CHR ''<'' then
             Some (Inr (Some \<lparr>byte_offset = out_pos, token_type = START_DICT, text_str = ''<<''\<rparr>), s)
           else if ch = Some CHR ''>'' then
             Some (Inr (Some \<lparr>byte_offset = out_pos, token_type = HEX_STRING, text_str = ''<>''\<rparr>), s)
           else
             (case hex_while (''<'' @ str_of ch) s of None \<Rightarrow> None | Some (ch, out_str, s) \<Rightarrow>
                Some (Inr (Some \<lparr>byte_offset = out_pos, token_type = HEX_STRING, text_str = out_str\<rparr>), s)))
      else if py_in (str_of ch) number_chars then
        (let out_pos = tell s - 1 in
         case scan_while_opt (\<lambda>c. py_in [c] number_chars) ch [] s of
           None \<Rightarrow> None
         | Some (ch, out_str, s) \<Rightarrow>
           let s = (if ch \<noteq> None then prev_char s else s) in
           Some (Inr (Some \<lparr>byte_offset = out_pos, token_type = NUMBER, text_str = out_str\<rparr>), s))
      else if ch = Some CHR ''('' then
        (let out_pos = tell s - 1 in
         case string_while 1 ''('' s of None \<Rightarrow> None
         | Some (ch, bracket_nesting_level, out_str, s) \<Rightarrow>
           if ch = None then Some (Inl AssertionError, s)
           else if endswith_backslash out_str then Some (Inl AssertionError, s)
           else Some (Inr (Some \<lparr>byte_offset = out_pos, token_type = STRING, text_str = out_str\<rparr>), s))
      else
        (let out_pos = tell s - 1 in
         case scan_while_opt (\<lambda>c. \<not> is_delimiter c) ch [] s of
           None \<Rightarrow> None
         | Some (ch, out_str, s) \<Rightarrow>
           let s = (if ch \<noteq> None then prev_char s else s) in
           Some (Inr (Some \<lparr>byte_offset = out_pos, token_type = OTHER, text_str = out_str\<rparr>), s)))"

definition next_token_opt :: "io_source \<Rightarrow> ((error + Token option) \<times> io_source) option" where
  "next_token_opt s =
     (case next_char s of (ch, s) \<Rightarrow>
        if ch = None then Some (Inr None, s)
        else (case ws_while ch s of None \<Rightarrow> None | Some (ch, s) \<Rightarrow> dispatch_opt ch s))"

subsection \<open>Notions used to state the properties\<close>

text \<open>The state of the byte source after \<open>n\<close> successive calls of \<open>next_token\<close>
  (whatever they returned).\<close>

fun after_calls :: "nat \<Rightarrow> io_source \<Rightarrow> io_source" where
  "after_calls 0 s = s"
| "after_calls (Suc n) s = after_calls n (snd (next_token s))"

text \<open>The results of \<open>n\<close> successive calls of \<open>next_token\<close>.\<close>

fun tokens :: "nat \<Rightarrow> io_source \<Rightarrow> (error + Token option) list" where
  "tokens 0 s = []"
| "tokens (Suc n) s = fst (next_token s) # tokens n (snd (next_token s))"

text \<open>\<open>lexeme_at s q\<close>: from the position of \<open>s\<close> on, the byte at offset \<open>q\<close> is
  the next byte that is not whitespace.\<close>

definition lexeme_at :: "io_source \<Rightarrow> nat \<Rightarrow> bool" where
  "lexeme_at s q =
     (pos s \<le> q \<and> q < length (buf s) \<and> (\<forall>i \<in> {pos s..<q}. is_whitespace (buf s ! i))
      \<and> \<not> is_whitespace (buf s ! q))"

text \<open>\<open>only_whitespace s\<close>: every byte from the position of \<open>s\<close> on is whitespace.\<close>

definition only_whitespace :: "io_source \<Rightarrow> bool" where
  "only_whitespace s = (\<forall>i \<in> {pos s..<length (buf s)}. is_whitespace (buf s ! i))"

text \<open>The nesting counter of the balanced-parenthesis rule, as the specification words
  it, on the bytes that follow the opening parenthesis: the counter is \<open>n\<close> before
  the bytes; a backslash takes the byte after it along, and neither changes the
  counter; any other \<open>(\<close> adds one, any other \<open>)\<close> takes one off.\<close>

fun nesting :: "int \<Rightarrow> string \<Rightarrow> int" where
  "nesting n [] = n"
| "nesting n (c # cs) =
     (if c = backslash then nesting n (drop 1 cs)
      else if c = CHR ''('' then nesting (n + 1) cs
      else if c = CHR '')'' then nesting (n - 1) cs
      else nesting n cs)"

text \<open>The input of the specification's comment example: the comment, a line feed,
  and \<open>123\<close>.\<close>

definition comment_input :: string where
  "comment_input = ''% a comment'' @ [CHR 0x0A] @ ''123''"

text \<open>A result of \<open>next_token\<close> that is a \<open>COMMENT\<close> token.\<close>

definition is_comment :: "(error + Token option) \<times> io_source \<Rightarrow> bool" where
  "is_comment r = (case fst r of Inr (Some t) \<Rightarrow> token_type t = COMMENT | _ \<Rightarrow> False)"

text \<open>The literal string of the specification's example: \<^verbatim>\<open>(Hello \(World\))\<close>,
  17 bytes, each parenthesis inside preceded by one backslash.\<close>

definition hello :: string where
  "hello = ''(Hello '' @ [backslash] @ ''(World'' @ [backslash] @ ''))''"

section \<open>Properties of the loops and of \<open>next_token\<close>\<close>

subsection \<open>Reading and the whitespace skip\<close>

lemma next_char_Some: "pos s < length (buf s) \<Longrightarrow> next_char s = (Some (buf s ! pos s), s\<lparr>pos := Suc (pos s)\<rparr>)"
  by (simp add: next_char_def)

lemma next_char_None: "length (buf s) \<le> pos s \<Longrightarrow> next_char s = (None, s)"
  by (simp add: next_char_def)

declare ws_loop.simps [simp del] name_loop.simps [simp del] scan_while.simps [simp del]
  hex_loop.simps [simp del] string_loop.simps [simp del]

lemma ws_loop_None: "ws_loop None s = (None, s)"
  by (subst ws_loop.simps) simp

lemma ws_loop_stop: "\<not> is_whitespace c \<Longrightarrow> ws_loop (Some c) s = (Some c, s)"
  by (subst ws_loop.simps) simp

lemma ws_loop_step: "is_whitespace c \<Longrightarrow> ws_loop (Some c) s = (case next_char s of (ch', s') \<Rightarrow> ws_loop ch' s')"
  by (subst ws_loop.simps) simp

lemma ws_found:
  "lexeme_at s q \<Longrightarrow>
   (case next_char s of (ch, s') \<Rightarrow> ws_loop ch s') = (Some (buf s ! q), s\<lparr>pos := Suc q\<rparr>)"
proof (induction "q - pos s" arbitrary: s)
  case 0
  then have "pos s = q" "q < length (buf s)" "\<not> is_whitespace (buf s ! q)"
    by (auto simp: lexeme_at_def)
  then show ?case
    by (simp add: next_char_Some ws_loop_stop)
next
  case (Suc n)
  let ?s1 = "s\<lparr>pos := Suc (pos s)\<rparr>"
  from Suc.hyps(2) Suc.prems have lt: "pos s < q" and len: "pos s < length (buf s)"
    and ws: "is_whitespace (buf s ! pos s)"
    by (auto simp: lexeme_at_def)
  have at1: "lexeme_at ?s1 q"
    using Suc.prems lt by (auto simp: lexeme_at_def)
  have "n = q - pos ?s1" using Suc.hyps(2) by simp
  from Suc.hyps(1)[OF this at1] show ?case
    using len ws by (simp add: next_char_Some ws_loop_step)
qed

lemma ws_eof:
  "only_whitespace s \<Longrightarrow>
   (case next_char s of (ch, s') \<Rightarrow> ws_loop ch s') = (None, s\<lparr>pos := max (pos s) (length (buf s))\<rparr>)"
proof (induction "length (buf s) - pos s" arbitrary: s)
  case 0
  then have "length (buf s) \<le> pos s" by simp
  then show ?case
    by (simp add: next_char_None ws_loop_None max_def)
next
  case (Suc n)
  let ?s1 = "s\<lparr>pos := Suc (pos s)\<rparr>"
  from Suc.hyps(2) Suc.prems have len: "pos s < length (buf s)"
    and ws: "is_whitespace (buf s ! pos s)"
    by (auto simp: only_whitespace_def)
  have at1: "only_whitespace ?s1"
    using Suc.prems by (auto simp: only_whitespace_def)
  have "n = length (buf ?s1) - pos ?s1" using Suc.hyps(2) by simp
  from Suc.hyps(1)[OF this at1] show ?case
    using len ws by (simp add: next_char_Some ws_loop_step max_def)
qed

lemma next_token_eof: "length (buf s) \<le> pos s \<Longrightarrow> next_token s = (Inr None, s)"
  by (simp add: next_token_def next_char_None)

lemma next_token_lexeme:
  assumes "lexeme_at s q"
  shows "next_token s = dispatch (Some (buf s ! q)) (s\<lparr>pos := Suc q\<rparr>)"
proof -
  from assms have "pos s < length (buf s)" by (auto simp: lexeme_at_def)
  then have "next_token s = (case (case next_char s of (ch, s') \<Rightarrow> ws_loop ch s') of (ch, s') \<Rightarrow> dispatch ch s')"
    by (simp add: next_token_def next_char_Some)
  then show ?thesis
    by (simp add: ws_found[OF assms])
qed

lemma next_token_only_whitespace:
  assumes "only_whitespace s" "pos s < length (buf s)"
  shows "next_token s = dispatch None (s\<lparr>pos := length (buf s)\<rparr>)"
proof -
  from assms have "next_token s = (case (case next_char s of (ch, s') \<Rightarrow> ws_loop ch s') of (ch, s') \<Rightarrow> dispatch ch s')"
    by (simp add: next_token_def next_char_Some)
  then show ?thesis
    using assms(2) by (simp add: ws_eof[OF assms(1)] max_def)
qed

lemma lexeme_cases:
  assumes "pos s < length (buf s)"
  shows "only_whitespace s \<or> (\<exists>q. lexeme_at s q)"
proof (cases "only_whitespace s")
  case True then show ?thesis by simp
next
  case False
  then obtain i where i: "pos s \<le> i" "i < length (buf s)" "\<not> is_whitespace (buf s ! i)"
    by (auto simp: only_whitespace_def)
  define q where "q = (LEAST i. pos s \<le> i \<and> i < length (buf s) \<and> \<not> is_whitespace (buf s ! i))"
  have q: "pos s \<le> q \<and> q < length (buf s) \<and> \<not> is_whitespace (buf s ! q)"
    unfolding q_def by (rule LeastI[where k = i]) (use i in simp)
  have "\<And>j. j < q \<Longrightarrow> \<not> (pos s \<le> j \<and> j < length (buf s) \<and> \<not> is_whitespace (buf s ! j))"
    unfolding q_def by (rule not_less_Least)
  with q have "lexeme_at s q"
    by (auto simp: lexeme_at_def)
  then show ?thesis by blast
qed

subsection \<open>The loops as operations on the remaining bytes\<close>

lemma prev_char_pos: "prev_char s = s\<lparr>pos := pos s - 1\<rparr>"
  by (cases "pos s") (simp_all add: prev_char_def io_seek_def Let_def)

lemma scan_while_None: "scan_while P None acc s = (None, acc, s)"
  by (subst scan_while.simps) simp

lemma scan_while_run:
  "pos s = Suc q \<Longrightarrow> q < length (buf s) \<Longrightarrow>
   scan_while P (Some (buf s ! q)) acc s =
     (let run = takeWhile P (drop q (buf s)); e = q + length run
      in (if e < length (buf s) then Some (buf s ! e) else None, acc @ run,
          s\<lparr>pos := (if e < length (buf s) then Suc e else e)\<rparr>))"
proof (induction "length (buf s) - q" arbitrary: q acc s)
  case 0
  then show ?case by simp
next
  case (Suc n)
  let ?c = "buf s ! q"
  have dr: "drop q (buf s) = ?c # drop (Suc q) (buf s)"
    using Suc.prems by (simp add: Cons_nth_drop_Suc)
  show ?case
  proof (cases "P ?c")
    case False
    then show ?thesis
      using Suc.prems by (subst scan_while.simps) (simp add: dr)
  next
    case True
    show ?thesis
    proof (cases "Suc q < length (buf s)")
      case False
      with Suc.prems have eq: "Suc q = length (buf s)" by simp
      then have "drop (Suc q) (buf s) = []" by simp
      then show ?thesis
        using True Suc.prems eq
        by (subst scan_while.simps) (simp add: dr next_char_None scan_while_None)
    next
      case lt: True
      let ?s1 = "s\<lparr>pos := Suc (Suc q)\<rparr>"
      have "n = length (buf ?s1) - Suc q" using Suc.hyps(2) by simp
      from Suc.hyps(1)[OF this, of "acc @ [?c]"] lt
      have "scan_while P (Some (buf s ! Suc q)) (acc @ [?c]) ?s1 =
        (let run = takeWhile P (drop (Suc q) (buf s)); e = Suc q + length run
         in (if e < length (buf s) then Some (buf s ! e) else None, (acc @ [?c]) @ run,
          s\<lparr>pos := (if e < length (buf s) then Suc e else e)\<rparr>))"
        by (simp add: Let_def)
      then show ?thesis
        using True Suc.prems lt
        by (subst scan_while.simps) (simp add: dr next_char_Some Let_def)
    qed
  qed
qed

lemma scan_token:
  assumes "pos s = Suc q" "q < length (buf s)"
  shows "(case scan_while P (Some (buf s ! q)) [] s of
            (ch, out_str, s') \<Rightarrow> (out_str, if ch \<noteq> None then prev_char s' else s')) =
         (takeWhile P (drop q (buf s)), s\<lparr>pos := q + length (takeWhile P (drop q (buf s)))\<rparr>)"
  by (simp add: scan_while_run[OF assms] Let_def prev_char_pos)

lemma name_loop_run:
  "pos s = p \<Longrightarrow>
   name_loop acc s =
     (let run = takeWhile (\<lambda>c. \<not> is_delimiter c) (drop p (buf s)); e = p + length run
      in (if e < length (buf s) then Some (buf s ! e) else None, acc @ run,
          s\<lparr>pos := (if e < length (buf s) then Suc e else e)\<rparr>))"
proof (induction "length (buf s) - p" arbitrary: p acc s)
  case 0
  then have "length (buf s) \<le> pos s" by simp
  then show ?case
    using 0 by (subst name_loop.simps) (simp add: next_char_None)
next
  case (Suc n)
  let ?c = "buf s ! p"
  have lt: "p < length (buf s)" using Suc.hyps(2) by simp
  have dr: "drop p (buf s) = ?c # drop (Suc p) (buf s)"
    using lt by (simp add: Cons_nth_drop_Suc)
  show ?case
  proof (cases "is_delimiter ?c")
    case True
    then show ?thesis
      using Suc.prems lt by (subst name_loop.simps) (simp add: dr next_char_Some)
  next
    case False
    let ?s1 = "s\<lparr>pos := Suc p\<rparr>"
    have "n = length (buf ?s1) - Suc p" using Suc.hyps(2) by simp
    from Suc.hyps(1)[OF this, of "acc @ [?c]"]
    have "name_loop (acc @ [?c]) ?s1 =
      (let run = takeWhile (\<lambda>c. \<not> is_delimiter c) (drop (Suc p) (buf s)); e = Suc p + length run
       in (if e < length (buf s) then Some (buf s ! e) else None, (acc @ [?c]) @ run,
          s\<lparr>pos := (if e < length (buf s) then Suc e else e)\<rparr>))"
      by (simp add: Let_def)
    then show ?thesis
      using False Suc.prems lt
      by (subst name_loop.simps) (simp add: dr next_char_Some Let_def)
  qed
qed

lemma name_token:
  assumes "pos s = p"
  shows "(case name_loop acc s of
            (ch, out_str, s') \<Rightarrow> (out_str, if ch \<noteq> None then prev_char s' else s')) =
         (acc @ takeWhile (\<lambda>c. \<not> is_delimiter c) (drop p (buf s)),
          s\<lparr>pos := p + length (takeWhile (\<lambda>c. \<not> is_delimiter c) (drop p (buf s)))\<rparr>)"
  using assms by (auto simp add: name_loop_run[OF assms] Let_def prev_char_pos)

lemma hex_loop_open:
  "pos s = p \<Longrightarrow> CHR ''>'' \<notin> set (drop p (buf s)) \<Longrightarrow>
   hex_loop acc s = (None, acc @ drop p (buf s), s\<lparr>pos := max p (length (buf s))\<rparr>)"
proof (induction "length (buf s) - p" arbitrary: p acc s)
  case 0
  then have "length (buf s) \<le> pos s" by simp
  then show ?case
    using 0 by (subst hex_loop.simps) (simp add: next_char_None max_def)
next
  case (Suc n)
  let ?c = "buf s ! p"
  have lt: "p < length (buf s)" using Suc.hyps(2) by simp
  have dr: "drop p (buf s) = ?c # drop (Suc p) (buf s)"
    using lt by (simp add: Cons_nth_drop_Suc)
  let ?s1 = "s\<lparr>pos := Suc p\<rparr>"
  have "n = length (buf ?s1) - Suc p" using Suc.hyps(2) by simp
  from Suc.hyps(1)[OF this, of "acc @ [?c]"] Suc.prems(2)
  have "hex_loop (acc @ [?c]) ?s1 =
      (None, (acc @ [?c]) @ drop (Suc p) (buf s), s\<lparr>pos := max (Suc p) (length (buf s))\<rparr>)"
    by (simp add: dr)
  then show ?case
    using Suc.prems lt
    by (subst hex_loop.simps) (auto simp add: dr next_char_Some max_def)
qed

lemma hex_loop_closed:
  "pos s = p \<Longrightarrow> CHR ''>'' \<in> set (drop p (buf s)) \<Longrightarrow>
   hex_loop acc s =
     (let run = takeWhile (\<lambda>c. c \<noteq> CHR ''>'') (drop p (buf s))
      in (Some CHR ''>'', acc @ run @ ''>'', s\<lparr>pos := Suc (p + length run)\<rparr>))"
proof (induction "length (buf s) - p" arbitrary: p acc s)
  case 0
  then show ?case by simp
next
  case (Suc n)
  let ?c = "buf s ! p"
  have lt: "p < length (buf s)" using Suc.hyps(2) by simp
  have dr: "drop p (buf s) = ?c # drop (Suc p) (buf s)"
    using lt by (simp add: Cons_nth_drop_Suc)
  show ?case
  proof (cases "?c = CHR ''>''")
    case True
    then show ?thesis
      using Suc.prems lt by (subst hex_loop.simps) (simp add: dr next_char_Some)
  next
    case False
    let ?s1 = "s\<lparr>pos := Suc p\<rparr>"
    have "n = length (buf ?s1) - Suc p" using Suc.hyps(2) by simp
    from Suc.hyps(1)[OF this, of "acc @ [?c]"] Suc.prems(2) False
    have "hex_loop (acc @ [?c]) ?s1 =
      (let run = takeWhile (\<lambda>c. c \<noteq> CHR ''>'') (drop (Suc p) (buf s))
       in (Some CHR ''>'', (acc @ [?c]) @ run @ ''>'', s\<lparr>pos := Suc (Suc p + length run)\<rparr>))"
      by (simp add: dr)
    then show ?thesis
      using False Suc.prems lt
      by (subst hex_loop.simps) (simp add: dr next_char_Some Let_def)
  qed
qed

lemma bs_neq: "backslash \<noteq> CHR ''(''" "backslash \<noteq> CHR '')''"
  by (simp_all add: backslash_def)

lemma string_loop_closed:
  "0 < n \<Longrightarrow> pos s = p \<Longrightarrow> k \<le> length (drop p (buf s)) \<Longrightarrow>
   nesting n (take k (drop p (buf s))) = 0 \<Longrightarrow>
   (\<forall>j<k. nesting n (take j (drop p (buf s))) \<noteq> 0) \<Longrightarrow>
   string_loop n acc s = (Some CHR '')'', 0, acc @ take k (drop p (buf s)), s\<lparr>pos := p + k\<rparr>)"
proof (induction k arbitrary: n p acc s rule: less_induct)
  case (less k)
  have kpos: "0 < k" using less.prems(1,4) by (cases k) auto
  then have lt: "p < length (buf s)" using less.prems(3) by simp
  let ?c = "buf s ! p"
  let ?s1 = "s\<lparr>pos := Suc p\<rparr>"
  have dr: "drop p (buf s) = ?c # drop (Suc p) (buf s)"
    using lt by (simp add: Cons_nth_drop_Suc)
  obtain k1 where k1: "k = Suc k1" using kpos by (cases k) auto
  have nc: "next_char s = (Some ?c, ?s1)"
    using lt less.prems(2) by (simp add: next_char_Some)
  have min1: "\<And>j. j < k1 \<Longrightarrow> nesting n (take (Suc j) (drop p (buf s))) \<noteq> 0"
    using less.prems(5) k1 by auto
  show ?case
  proof (cases "?c = backslash")
    case True
    have k1pos: "0 < k1"
      using less.prems(1,4) True by (cases k1) (auto simp: k1 dr)
    then obtain k2 where k2: "k1 = Suc k2" by (cases k1) auto
    have lt2: "Suc p < length (buf s)" using less.prems(3) k1 k2 by simp
    let ?d = "buf s ! Suc p"
    let ?s2 = "s\<lparr>pos := Suc (Suc p)\<rparr>"
    have dr2: "drop (Suc p) (buf s) = ?d # drop (Suc (Suc p)) (buf s)"
      using lt2 by (simp add: Cons_nth_drop_Suc)
    have nc2: "next_char ?s1 = (Some ?d, ?s2)"
      using lt2 by (simp add: next_char_Some)
    have a: "nesting n (take k2 (drop (Suc (Suc p)) (buf (?s2)))) = 0"
      using less.prems(4) True by (simp add: k1 k2 dr dr2)
    have b: "\<forall>j<k2. nesting n (take j (drop (Suc (Suc p)) (buf ?s2))) \<noteq> 0"
    proof (intro allI impI)
      fix j assume "j < k2"
      then have "Suc (Suc j) < k" by (simp add: k1 k2)
      from less.prems(5)[rule_format, OF this] True
      show "nesting n (take j (drop (Suc (Suc p)) (buf ?s2))) \<noteq> 0"
        by (simp add: dr dr2)
    qed
    have c: "k2 \<le> length (drop (Suc (Suc p)) (buf ?s2))"
      using less.prems(3) by (simp add: k1 k2)
    have "string_loop n (acc @ [backslash, ?d]) ?s2 =
        (Some CHR '')'', 0, (acc @ [backslash, ?d]) @ take k2 (drop (Suc (Suc p)) (buf ?s2)),
         ?s2\<lparr>pos := Suc (Suc p) + k2\<rparr>)"
      by (rule less.IH[OF _ less.prems(1) _ c a b]) (simp_all add: k1 k2)
    then show ?thesis
      using True by (subst string_loop.simps) (simp add: nc nc2 k1 k2 dr dr2)
  next
    case nb: False
    show ?thesis
    proof (cases "?c = CHR '')'' \<and> n = 1")
      case True
      have "k1 = 0"
      proof (rule ccontr)
        assume "k1 \<noteq> 0"
        then have "1 < k" by (simp add: k1)
        from less.prems(5)[rule_format, OF this] True nb show False
          by (simp add: dr)
      qed
      then show ?thesis
        using True nb by (subst string_loop.simps) (simp add: nc k1 dr Let_def)
    next
      case False
      define n' where "n' = (if ?c = CHR ''('' then n + 1 else if ?c = CHR '')'' then n - 1 else n)"
      have n'pos: "0 < n'" using False less.prems(1) by (auto simp: n'_def)
      have a: "nesting n' (take k1 (drop (Suc p) (buf ?s1))) = 0"
        using less.prems(4) nb by (auto simp add: k1 dr n'_def split: if_splits)
      have b: "\<forall>j<k1. nesting n' (take j (drop (Suc p) (buf ?s1))) \<noteq> 0"
      proof (intro allI impI)
        fix j assume "j < k1"
        from min1[OF this] nb
        show "nesting n' (take j (drop (Suc p) (buf ?s1))) \<noteq> 0"
          by (auto simp add: dr n'_def split: if_splits)
      qed
      have c: "k1 \<le> length (drop (Suc p) (buf ?s1))"
        using less.prems(3) by (simp add: k1)
      have "string_loop n' (acc @ [?c]) ?s1 =
          (Some CHR '')'', 0, (acc @ [?c]) @ take k1 (drop (Suc p) (buf ?s1)),
           ?s1\<lparr>pos := Suc p + k1\<rparr>)"
        by (rule less.IH[OF _ n'pos _ c a b]) (simp_all add: k1)
      moreover have "n' \<noteq> 0" using n'pos by simp
      ultimately show ?thesis
        using False nb
        by (subst string_loop.simps) (auto simp add: nc k1 dr Let_def n'_def)
    qed
  qed
qed

lemma string_loop_open:
  "0 < n \<Longrightarrow> pos s = p \<Longrightarrow>
   (\<forall>k\<le>length (drop p (buf s)). nesting n (take k (drop p (buf s))) \<noteq> 0) \<Longrightarrow>
   fst (string_loop n acc s) = None"
proof (induction "length (buf s) - p" arbitrary: n p acc s rule: less_induct)
  case less
  show ?case
  proof (cases "p < length (buf s)")
    case False
    then show ?thesis
      using less.prems(2) by (subst string_loop.simps) (simp add: next_char_None)
  next
    case lt: True
    let ?c = "buf s ! p"
    let ?s1 = "s\<lparr>pos := Suc p\<rparr>"
    have dr: "drop p (buf s) = ?c # drop (Suc p) (buf s)"
      using lt by (simp add: Cons_nth_drop_Suc)
    have nc: "next_char s = (Some ?c, ?s1)"
      using lt less.prems(2) by (simp add: next_char_Some)
    have op: "\<And>k. k \<le> length (drop (Suc p) (buf s)) \<Longrightarrow>
        nesting n (take (Suc k) (drop p (buf s))) \<noteq> 0"
      using less.prems(3) lt by auto
    show ?thesis
    proof (cases "?c = backslash")
      case True
      show ?thesis
      proof (cases "Suc p < length (buf s)")
        case False
        then have nc2: "next_char ?s1 = (None, ?s1)" by (simp add: next_char_None)
        show ?thesis
          using True by (subst string_loop.simps, simp add: nc nc2, subst string_loop.simps, simp add: nc2)
      next
        case lt2: True
        let ?d = "buf s ! Suc p"
        let ?s2 = "s\<lparr>pos := Suc (Suc p)\<rparr>"
        have dr2: "drop (Suc p) (buf s) = ?d # drop (Suc (Suc p)) (buf s)"
          using lt2 by (simp add: Cons_nth_drop_Suc)
        have nc2: "next_char ?s1 = (Some ?d, ?s2)"
          using lt2 by (simp add: next_char_Some)
        have b: "\<forall>k\<le>length (drop (Suc (Suc p)) (buf ?s2)). nesting n (take k (drop (Suc (Suc p)) (buf ?s2))) \<noteq> 0"
        proof (intro allI impI)
          fix k assume "k \<le> length (drop (Suc (Suc p)) (buf ?s2))"
          then have "Suc (Suc k) \<le> length (drop p (buf s))" using lt2 by simp
          from less.prems(3)[rule_format, OF this] True
          show "nesting n (take k (drop (Suc (Suc p)) (buf ?s2))) \<noteq> 0"
            by (simp add: dr dr2)
        qed
        have "fst (string_loop n (acc @ [backslash, ?d]) ?s2) = None"
          by (rule less.hyps[OF _ less.prems(1) _ b]) (use lt2 in simp_all)
        then show ?thesis
          using True by (subst string_loop.simps) (simp add: nc nc2)
      qed
    next
      case nb: False
      define n' where "n' = (if ?c = CHR ''('' then n + 1 else if ?c = CHR '')'' then n - 1 else n)"
      have n'ne: "n' \<noteq> 0"
        using op[of 0] nb by (auto simp add: dr n'_def split: if_splits)
      have n'pos: "0 < n'" using n'ne less.prems(1) by (auto simp: n'_def split: if_splits)
      have b: "\<forall>k\<le>length (drop (Suc p) (buf ?s1)). nesting n' (take k (drop (Suc p) (buf ?s1))) \<noteq> 0"
      proof (intro allI impI)
        fix k assume "k \<le> length (drop (Suc p) (buf ?s1))"
        then have "k \<le> length (drop (Suc p) (buf s))" by simp
        from op[OF this] nb
        show "nesting n' (take k (drop (Suc p) (buf ?s1))) \<noteq> 0"
          by (auto simp add: dr n'_def split: if_splits)
      qed
      have "fst (string_loop n' (acc @ [?c]) ?s1) = None"
        by (rule less.hyps[OF _ n'pos _ b]) (use lt in simp_all)
      then show ?thesis
        using nb n'ne
        by (subst string_loop.simps) (auto simp add: nc Let_def n'_def)
    qed
  qed
qed

subsection \<open>The bytes of the source never change\<close>

lemma buf_next_char: "next_char s = (ch, s') \<Longrightarrow> buf s' = buf s"
  by (auto simp: next_char_def split: if_splits)

lemma buf_prev_char: "buf (prev_char s) = buf s"
  by (simp add: prev_char_pos)

lemma buf_ws_loop: "ws_loop ch s = (ch', s') \<Longrightarrow> buf s' = buf s"
proof (induction ch s rule: ws_loop.induct)
  case (1 ch s)
  show ?case
  proof (cases ch)
    case None
    with "1.prems" show ?thesis by (simp add: ws_loop_None)
  next
    case (Some c)
    show ?thesis
    proof (cases "is_whitespace c")
      case False
      with Some "1.prems" show ?thesis by (simp add: ws_loop_stop)
    next
      case True
      obtain ch1 s1 where nc: "next_char s = (ch1, s1)" by (cases "next_char s")
      from "1.prems" Some True nc have "ws_loop ch1 s1 = (ch', s')"
        by (simp add: ws_loop_step)
      from "1.IH"[OF Some True nc[symmetric] this] buf_next_char[OF nc]
      show ?thesis by simp
    qed
  qed
qed

lemma buf_name_loop: "name_loop acc s = (ch', out, s') \<Longrightarrow> buf s' = buf s"
  by (auto simp: name_loop_run[OF refl] Let_def)

lemma buf_scan_while: "scan_while P ch acc s = (ch', out, s') \<Longrightarrow> buf s' = buf s"
proof (induction P ch acc s rule: scan_while.induct)
  case (1 P ch acc s)
  show ?case
  proof (cases ch)
    case None
    with "1.prems" show ?thesis by (simp add: scan_while_None)
  next
    case (Some c)
    show ?thesis
    proof (cases "P c")
      case False
      with Some "1.prems" show ?thesis by (subst (asm) scan_while.simps) simp
    next
      case True
      obtain ch1 s1 where nc: "next_char s = (ch1, s1)" by (cases "next_char s")
      from "1.prems" Some True nc have "scan_while P ch1 (acc @ [c]) s1 = (ch', out, s')"
        by (subst (asm) scan_while.simps) simp
      from "1.IH"[OF Some True nc[symmetric] this] buf_next_char[OF nc]
      show ?thesis by simp
    qed
  qed
qed

lemma buf_hex_loop: "hex_loop acc s = (ch', out, s') \<Longrightarrow> buf s' = buf s"
  by (cases "CHR ''>'' \<in> set (drop (pos s) (buf s))")
     (auto simp: hex_loop_closed[OF refl] hex_loop_open[OF refl] Let_def)

lemma buf_string_loop: "string_loop n acc s = (ch', n', out, s') \<Longrightarrow> buf s' = buf s"
proof (induction n acc s rule: string_loop.induct)
  case (1 n acc s)
  obtain ch1 s1 where nc: "next_char s = (ch1, s1)" by (cases "next_char s")
  note b1 = buf_next_char[OF nc]
  show ?case
  proof (cases ch1)
    case None
    with "1.prems" nc b1 show ?thesis by (subst (asm) string_loop.simps) auto
  next
    case (Some c)
    show ?thesis
    proof (cases "c = backslash")
      case True
      obtain ch2 s2 where nc2: "next_char s1 = (ch2, s2)" by (cases "next_char s1")
      from "1.prems" nc Some True nc2
      have "string_loop n (acc @ [backslash] @ str_of ch2) s2 = (ch', n', out, s')"
        by (subst (asm) string_loop.simps) simp
      from "1.IH"(1)[OF nc[symmetric] Some True nc2[symmetric] this]
        buf_next_char[OF nc2] b1
      show ?thesis by simp
    next
      case False
      define l1 where "l1 = (if c = CHR ''('' then n + 1 else n)"
      define l2 where "l2 = (if c = CHR '')'' then l1 - 1 else l1)"
      have eq: "string_loop n acc s =
          (if l2 = 0 then (Some c, l2, acc @ [c], s1) else string_loop l2 (acc @ [c]) s1)"
        using False by (subst string_loop.simps) (simp add: nc Some Let_def l1_def l2_def)
      show ?thesis
      proof (cases "l2 = 0")
        case True
        with "1.prems" eq b1 show ?thesis by simp
      next
        case nz: False
        from "1.prems" eq nz
        have "string_loop l2 (acc @ [c]) s1 = (ch', n', out, s')" by simp
        from "1.IH"(2)[OF nc[symmetric] Some False l1_def l2_def refl nz this] b1
        show ?thesis by simp
      qed
    qed
  qed
qed

lemma buf_dispatch: "dispatch ch s = (r, s') \<Longrightarrow> buf s' = buf s"
  unfolding dispatch_def comment_loop_def number_loop_def other_loop_def Let_def
  by (auto split: if_splits prod.splits
      dest!: buf_next_char buf_name_loop buf_scan_while buf_hex_loop buf_string_loop
      simp: buf_prev_char)

lemma buf_next_token: "buf (snd (next_token s)) = buf s"
proof -
  obtain r s' where nt: "next_token s = (r, s')" by (cases "next_token s")
  then have "buf s' = buf s"
    unfolding next_token_def
    by (auto split: if_splits prod.splits dest!: buf_next_char buf_ws_loop buf_dispatch)
  with nt show ?thesis by simp
qed

lemma offset_dispatch:
  "dispatch ch s = (Inr (Some t), s') \<Longrightarrow> byte_offset t = int (pos s) - 1"
  unfolding dispatch_def Let_def tell_def
  by (auto split: if_splits prod.splits)

subsection \<open>The cases of the dispatch\<close>

lemma py_in_empty: "py_in [] s"
  by (cases s) simp_all

lemma py_in_single: "py_in [c] s = (c \<in> set s)"
  by (induction s) auto

lemma dispatch_None:
  "dispatch None s =
     (Inr (Some \<lparr>byte_offset = int (pos s) - 1, token_type = NUMBER, text_str = []\<rparr>), s)"
  by (simp add: dispatch_def py_in_empty number_loop_def scan_while_None tell_def)

lemma trailing_whitespace:
  assumes "only_whitespace s" "pos s < length (buf s)"
  shows "next_token s =
     (Inr (Some \<lparr>byte_offset = int (length (buf s)) - 1, token_type = NUMBER, text_str = []\<rparr>),
      s\<lparr>pos := length (buf s)\<rparr>)"
  by (simp add: next_token_only_whitespace[OF assms] dispatch_None)

lemma scan_while_stop: "\<not> P c \<Longrightarrow> scan_while P (Some c) acc s = (Some c, acc, s)"
  by (subst scan_while.simps) simp

lemma dispatch_close_paren:
  "dispatch (Some CHR '')'') s =
     (Inr (Some \<lparr>byte_offset = int (pos s) - 1, token_type = OTHER, text_str = []\<rparr>), prev_char s)"
  by (simp add: dispatch_def py_in_single number_chars_def other_loop_def scan_while_stop
      is_delimiter_def tell_def)

lemma close_paren_once:
  assumes "lexeme_at s q" "buf s ! q = CHR '')''"
  shows "next_token s =
     (Inr (Some \<lparr>byte_offset = int q, token_type = OTHER, text_str = []\<rparr>), s\<lparr>pos := q\<rparr>)"
  using assms(2) by (simp add: next_token_lexeme[OF assms(1)] dispatch_close_paren prev_char_pos)

lemma lexeme_at_self: "lexeme_at s q \<Longrightarrow> lexeme_at (s\<lparr>pos := q\<rparr>) q"
  by (simp add: lexeme_at_def)

lemma close_paren_after:
  assumes "lexeme_at s q" "buf s ! q = CHR '')''"
  shows "after_calls (Suc n) s = s\<lparr>pos := q\<rparr>"
proof (induction n)
  case 0
  show ?case by (simp add: close_paren_once[OF assms])
next
  case (Suc n)
  have "after_calls (Suc (Suc n)) s = after_calls (Suc n) (s\<lparr>pos := q\<rparr>)"
    by (simp add: close_paren_once[OF assms])
  also have "\<dots> = after_calls n (s\<lparr>pos := q\<rparr>)"
    using close_paren_once[OF lexeme_at_self[OF assms(1)]] assms(2) by simp
  also have "\<dots> = s\<lparr>pos := q\<rparr>"
    using Suc by (cases n) (simp_all add: close_paren_once[OF assms])
  finally show ?case .
qed

lemma dispatch_gt:
  "dispatch (Some CHR ''>'') s =
     (case next_char s of (ch, s') \<Rightarrow>
        if ch \<noteq> Some CHR ''>'' then (Inl AssertionError, s')
        else (Inr (Some \<lparr>byte_offset = int (pos s) - 1, token_type = END_DICT, text_str = ''>>''\<rparr>), s'))"
  by (simp add: dispatch_def tell_def)

lemma end_dict:
  assumes "lexeme_at s q" "buf s ! q = CHR ''>''"
  shows "next_token s =
     (if Suc q < length (buf s) \<and> buf s ! Suc q = CHR ''>''
      then (Inr (Some \<lparr>byte_offset = int q, token_type = END_DICT, text_str = ''>>''\<rparr>),
            s\<lparr>pos := q + 2\<rparr>)
      else (Inl AssertionError, s\<lparr>pos := min (q + 2) (length (buf s))\<rparr>))"
proof -
  have q: "q < length (buf s)" using assms(1) by (simp add: lexeme_at_def)
  show ?thesis
  proof (cases "Suc q < length (buf s)")
    case True
    then show ?thesis
      using assms(2) by (simp add: next_token_lexeme[OF assms(1)] dispatch_gt next_char_Some min_def)
  next
    case False
    with q have "length (buf s) = Suc q" by simp
    then show ?thesis
      using assms(2) by (simp add: next_token_lexeme[OF assms(1)] dispatch_gt next_char_None min_def)
  qed
qed

lemma dispatch_open_paren:
  "dispatch (Some CHR ''('') s =
     (case string_loop 1 ''('' s of (ch, bracket_nesting_level, out_str, s') \<Rightarrow>
        if ch = None then (Inl AssertionError, s')
        else if endswith_backslash out_str then (Inl AssertionError, s')
        else (Inr (Some \<lparr>byte_offset = int (pos s) - 1, token_type = STRING, text_str = out_str\<rparr>), s'))"
  by (simp add: dispatch_def tell_def py_in_single number_chars_def)

lemma string_loop_last:
  "string_loop n acc s = (Some c, n', out, s') \<Longrightarrow> out \<noteq> [] \<and> last out = c \<and> c \<noteq> backslash"
proof (induction n acc s rule: string_loop.induct)
  case (1 n acc s)
  obtain ch1 s1 where nc: "next_char s = (ch1, s1)" by (cases "next_char s")
  show ?case
  proof (cases ch1)
    case None
    with "1.prems" nc show ?thesis by (subst (asm) string_loop.simps) auto
  next
    case (Some d)
    show ?thesis
    proof (cases "d = backslash")
      case True
      obtain ch2 s2 where nc2: "next_char s1 = (ch2, s2)" by (cases "next_char s1")
      from "1.prems" nc Some True nc2
      have "string_loop n (acc @ [backslash] @ str_of ch2) s2 = (Some c, n', out, s')"
        by (subst (asm) string_loop.simps) simp
      from "1.IH"(1)[OF nc[symmetric] Some True nc2[symmetric] this]
      show ?thesis .
    next
      case False
      define l1 where "l1 = (if d = CHR ''('' then n + 1 else n)"
      define l2 where "l2 = (if d = CHR '')'' then l1 - 1 else l1)"
      have eq: "string_loop n acc s =
          (if l2 = 0 then (Some d, l2, acc @ [d], s1) else string_loop l2 (acc @ [d]) s1)"
        using False by (subst string_loop.simps) (simp add: nc Some Let_def l1_def l2_def)
      show ?thesis
      proof (cases "l2 = 0")
        case True
        with "1.prems" eq False show ?thesis by auto
      next
        case nz: False
        from "1.prems" eq nz
        have "string_loop l2 (acc @ [d]) s1 = (Some c, n', out, s')" by simp
        from "1.IH"(2)[OF nc[symmetric] Some False l1_def l2_def refl nz this]
        show ?thesis .
      qed
    qed
  qed
qed

lemma unterminated_string:
  assumes "lexeme_at s q" "buf s ! q = CHR ''(''"
    and "\<forall>k\<le>length (drop (Suc q) (buf s)). nesting 1 (take k (drop (Suc q) (buf s))) \<noteq> 0"
  shows "fst (next_token s) = Inl AssertionError"
proof -
  let ?s1 = "s\<lparr>pos := Suc q\<rparr>"
  have "fst (string_loop 1 ''('' ?s1) = None"
    by (rule string_loop_open[where p = "Suc q"]) (use assms(3) in simp_all)
  then show ?thesis
    using assms(2)
    by (cases "string_loop 1 ''('' ?s1")
       (simp add: next_token_lexeme[OF assms(1)] dispatch_open_paren)
qed

lemma terminated_string:
  assumes "lexeme_at s q" "buf s ! q = CHR ''(''"
    and "k \<le> length (drop (Suc q) (buf s))"
    and "nesting 1 (take k (drop (Suc q) (buf s))) = 0"
    and "\<forall>j<k. nesting 1 (take j (drop (Suc q) (buf s))) \<noteq> 0"
  shows "next_token s =
     (Inr (Some \<lparr>byte_offset = int q, token_type = STRING,
                 text_str = CHR ''('' # take k (drop (Suc q) (buf s))\<rparr>),
      s\<lparr>pos := Suc q + k\<rparr>)"
proof -
  let ?s1 = "s\<lparr>pos := Suc q\<rparr>"
  let ?body = "take k (drop (Suc q) (buf s))"
  have sl: "string_loop 1 ''('' ?s1 = (Some CHR '')'', 0, ''('' @ ?body, ?s1\<lparr>pos := Suc q + k\<rparr>)"
    using string_loop_closed[where s = ?s1 and p = "Suc q" and n = 1 and k = k and acc = "''(''"] assms(3,4,5)
    by simp
  have "\<not> endswith_backslash (''('' @ ?body)"
    using string_loop_last[OF sl] by (simp add: endswith_backslash_def backslash_def)
  then show ?thesis
    using assms(2)
    by (simp add: next_token_lexeme[OF assms(1)] dispatch_open_paren sl)
qed

lemma all_less_upt: "(\<forall>j<n. P j) = (\<forall>j \<in> set [0..<n]. P j)"
  by auto

lemma all_le_upt: "(\<forall>j\<le>n. P j) = (\<forall>j \<in> set [0..<Suc n]. P j)"
  by auto

lemma terminated_string_last:
  assumes "lexeme_at s q" "buf s ! q = CHR ''(''"
    and "k \<le> length (drop (Suc q) (buf s))"
    and "nesting 1 (take k (drop (Suc q) (buf s))) = 0"
    and "\<forall>j<k. nesting 1 (take j (drop (Suc q) (buf s))) \<noteq> 0"
  shows "CHR ''('' # take k (drop (Suc q) (buf s)) = take (Suc k) (drop q (buf s))"
    and "last (take (Suc k) (drop q (buf s))) = CHR '')''"
proof -
  let ?s1 = "s\<lparr>pos := Suc q\<rparr>"
  let ?body = "take k (drop (Suc q) (buf s))"
  have q: "q < length (buf s)" using assms(1) by (simp add: lexeme_at_def)
  show eq: "CHR ''('' # ?body = take (Suc k) (drop q (buf s))"
    using assms(2) q by (simp add: Cons_nth_drop_Suc[symmetric])
  have sl: "string_loop 1 ''('' ?s1 = (Some CHR '')'', 0, ''('' @ ?body, ?s1\<lparr>pos := Suc q + k\<rparr>)"
    using string_loop_closed[where s = ?s1 and p = "Suc q" and n = 1 and k = k and acc = "''(''"] assms(3,4,5)
    by simp
  from string_loop_last[OF sl] eq show "last (take (Suc k) (drop q (buf s))) = CHR '')''"
    by simp
qed

subsection \<open>Hex strings, seeking back, comments\<close>

lemma dispatch_lt:
  "dispatch (Some CHR ''<'') s =
     (case next_char s of (ch, s') \<Rightarrow>
        if ch = Some CHR ''<'' then
          (Inr (Some \<lparr>byte_offset = int (pos s) - 1, token_type = START_DICT, text_str = ''<<''\<rparr>), s')
        else if ch = Some CHR ''>'' then
          (Inr (Some \<lparr>byte_offset = int (pos s) - 1, token_type = HEX_STRING, text_str = ''<>''\<rparr>), s')
        else
          (case hex_loop (''<'' @ str_of ch) s' of (ch', out_str, s'') \<Rightarrow>
             (Inr (Some \<lparr>byte_offset = int (pos s) - 1, token_type = HEX_STRING, text_str = out_str\<rparr>), s'')))"
  by (simp add: dispatch_def tell_def Let_def)

lemma truncated_hex:
  assumes "lexeme_at s q" "buf s ! q = CHR ''<''"
    and "Suc q < length (buf s) \<longrightarrow> buf s ! Suc q \<noteq> CHR ''<''"
    and "CHR ''>'' \<notin> set (drop (Suc q) (buf s))"
  shows "next_token s =
     (Inr (Some \<lparr>byte_offset = int q, token_type = HEX_STRING, text_str = drop q (buf s)\<rparr>),
      s\<lparr>pos := length (buf s)\<rparr>)"
proof -
  have q: "q < length (buf s)" using assms(1) by (simp add: lexeme_at_def)
  let ?s1 = "s\<lparr>pos := Suc q\<rparr>"
  have dr: "drop q (buf s) = CHR ''<'' # drop (Suc q) (buf s)"
    using q assms(2) by (simp add: Cons_nth_drop_Suc[symmetric])
  show ?thesis
  proof (cases "Suc q < length (buf s)")
    case False
    with q have len: "length (buf s) = Suc q" by simp
    have "hex_loop ''<'' ?s1 = (None, ''<'' @ drop (Suc q) (buf ?s1), ?s1\<lparr>pos := max (Suc q) (length (buf ?s1))\<rparr>)"
      by (rule hex_loop_open) (simp_all add: len)
    then show ?thesis
      using assms(2) len
      by (simp add: next_token_lexeme[OF assms(1)] dispatch_lt next_char_None dr)
  next
    case True
    let ?d = "buf s ! Suc q"
    let ?s2 = "s\<lparr>pos := Suc (Suc q)\<rparr>"
    have dr2: "drop (Suc q) (buf s) = ?d # drop (Suc (Suc q)) (buf s)"
      using True by (simp add: Cons_nth_drop_Suc)
    have d: "?d \<noteq> CHR ''<''" "?d \<noteq> CHR ''>''"
      using assms(3,4) True by (auto simp: dr2)
    have "CHR ''>'' \<notin> set (drop (Suc (Suc q)) (buf ?s2))"
      using assms(4) by (simp add: dr2)
    then have "hex_loop (''<'' @ [?d]) ?s2 =
        (None, (''<'' @ [?d]) @ drop (Suc (Suc q)) (buf ?s2), ?s2\<lparr>pos := max (Suc (Suc q)) (length (buf ?s2))\<rparr>)"
      by (intro hex_loop_open) simp_all
    then show ?thesis
      using assms(2) True d
      by (simp add: next_token_lexeme[OF assms(1)] dispatch_lt next_char_Some dr dr2 max_def)
  qed
qed

lemma same_buf_pos: "buf s' = buf (s :: io_source) \<Longrightarrow> s'\<lparr>pos := p\<rparr> = s\<lparr>pos := p\<rparr>"
  by (cases s, cases s') simp

lemma seek_set: "0 \<le> off \<Longrightarrow> seek s off SEEK_SET = (Inr off, s\<lparr>pos := nat off\<rparr>)"
  by (simp add: seek_def io_seek_def)

lemma reseek_token:
  assumes "fst (next_token s) = Inr (Some t)" "buf s' = buf s"
  shows "0 \<le> byte_offset t"
    and "next_token (s'\<lparr>pos := nat (byte_offset t)\<rparr>) = next_token s"
proof -
  have lt: "pos s < length (buf s)"
    using assms(1) by (cases "pos s < length (buf s)") (simp_all add: next_token_eof)
  from lexeme_cases[OF lt]
  have "0 \<le> byte_offset t \<and> next_token (s'\<lparr>pos := nat (byte_offset t)\<rparr>) = next_token s"
  proof
    assume ow: "only_whitespace s"
    note nt = trailing_whitespace[OF ow lt]
    with assms(1) have off: "byte_offset t = int (length (buf s)) - 1" by auto
    let ?s2 = "s\<lparr>pos := length (buf s) - 1\<rparr>"
    have "only_whitespace ?s2" using ow lt by (auto simp: only_whitespace_def)
    moreover have "pos ?s2 < length (buf ?s2)" using lt by simp
    ultimately have "next_token ?s2 = next_token s"
      using trailing_whitespace[of ?s2] nt by simp
    moreover have "nat (byte_offset t) = length (buf s) - 1" using off lt by simp
    moreover have "buf s \<noteq> []" using lt by auto
    ultimately show ?thesis
      using off lt same_buf_pos[OF assms(2)] by simp
  next
    assume "\<exists>q. lexeme_at s q"
    then obtain q where la: "lexeme_at s q" by blast
    note nt = next_token_lexeme[OF la]
    obtain r s1 where d: "dispatch (Some (buf s ! q)) (s\<lparr>pos := Suc q\<rparr>) = (r, s1)"
      by (cases "dispatch (Some (buf s ! q)) (s\<lparr>pos := Suc q\<rparr>)")
    with assms(1) nt have "r = Inr (Some t)" by simp
    with d have off: "byte_offset t = int q"
      using offset_dispatch[of "Some (buf s ! q)" "s\<lparr>pos := Suc q\<rparr>" t s1] by simp
    have "next_token (s\<lparr>pos := q\<rparr>) = next_token s"
      using next_token_lexeme[OF lexeme_at_self[OF la]] nt by simp
    then show ?thesis
      using off same_buf_pos[OF assms(2)] by simp
  qed
  then show "0 \<le> byte_offset t"
    and "next_token (s'\<lparr>pos := nat (byte_offset t)\<rparr>) = next_token s" by simp_all
qed

lemma buf_after_calls: "buf (after_calls n s) = buf s"
  by (induction n arbitrary: s) (simp_all add: buf_next_token)

lemma seek_back: "snd (seek (after_calls m s) (tell s) SEEK_SET) = s"
proof -
  have "(after_calls m s)\<lparr>pos := pos s\<rparr> = s\<lparr>pos := pos s\<rparr>"
    by (rule same_buf_pos) (rule buf_after_calls)
  then show ?thesis
    by (simp add: seek_set tell_def)
qed


lemma dispatch_comment_only:
  "dispatch ch s = (Inr (Some t), s') \<Longrightarrow> token_type t = COMMENT \<Longrightarrow> ch = Some CHR ''%''"
  unfolding dispatch_def Let_def
  by (auto split: if_splits prod.splits)

lemma dispatch_comment:
  assumes "pos s = Suc q" "q < length (buf s)" "buf s ! q = CHR ''%''"
  shows "dispatch (Some CHR ''%'') s =
     (Inr (Some \<lparr>byte_offset = int q, token_type = COMMENT,
                 text_str = takeWhile (\<lambda>c. c \<noteq> CHR 0x0D \<and> c \<noteq> CHR 0x0A) (drop q (buf s))\<rparr>),
      s\<lparr>pos := q + length (takeWhile (\<lambda>c. c \<noteq> CHR 0x0D \<and> c \<noteq> CHR 0x0A) (drop q (buf s)))\<rparr>)"
proof -
  let ?P = "\<lambda>c. c \<noteq> CHR 0x0D \<and> c \<noteq> CHR 0x0A"
  obtain ch' out s' where sw: "scan_while ?P (Some CHR ''%'') [] s = (ch', out, s')"
    by (cases "scan_while ?P (Some CHR ''%'') [] s") auto
  from scan_token[OF assms(1,2), of ?P] sw assms(3)
  have "out = takeWhile ?P (drop q (buf s))"
    and "(if ch' \<noteq> None then prev_char s' else s') = s\<lparr>pos := q + length (takeWhile ?P (drop q (buf s)))\<rparr>"
    by simp_all
  then show ?thesis
    using sw assms(1) by (simp add: dispatch_def comment_loop_def Let_def tell_def)
qed

lemma comment_progress:
  assumes "next_token s = (Inr (Some t), s')" "token_type t = COMMENT"
  shows "length (buf s') - pos s' < length (buf s) - pos s"
proof -
  have lt: "pos s < length (buf s)"
    using assms(1) by (cases "pos s < length (buf s)") (simp_all add: next_token_eof)
  from lexeme_cases[OF lt] show ?thesis
  proof
    assume "only_whitespace s"
    from trailing_whitespace[OF this lt] assms show ?thesis by auto
  next
    assume "\<exists>q. lexeme_at s q"
    then obtain q where la: "lexeme_at s q" by blast
    then have q: "pos s \<le> q" "q < length (buf s)" by (simp_all add: lexeme_at_def)
    let ?s1 = "s\<lparr>pos := Suc q\<rparr>"
    let ?P = "\<lambda>c. c \<noteq> CHR 0x0D \<and> c \<noteq> CHR 0x0A"
    let ?run = "takeWhile ?P (drop q (buf s))"
    have d: "dispatch (Some (buf s ! q)) ?s1 = (Inr (Some t), s')"
      using next_token_lexeme[OF la] assms(1) by simp
    from dispatch_comment_only[OF d assms(2)] have c: "buf s ! q = CHR ''%''" by simp
    define r where "r = length ?run"
    from dispatch_comment[of ?s1 q] q c d
    have s': "s' = s\<lparr>pos := q + r\<rparr>" by (simp add: r_def)
    have "drop q (buf s) = CHR ''%'' # drop (Suc q) (buf s)"
      using q c by (simp add: Cons_nth_drop_Suc[symmetric])
    then have r0: "0 < r" by (simp add: r_def)
    have r1: "r \<le> length (buf s) - q"
      using length_takeWhile_le[of ?P "drop q (buf s)"] by (simp add: r_def)
    have "length (buf s) - (q + r) < length (buf s) - pos s"
      using q r0 r1 by arith
    then show ?thesis by (simp add: s')
  qed
qed

termination non_comment_loop
  by (relation "measure (\<lambda>(t, s). case t of None \<Rightarrow> 0
        | Some tok \<Rightarrow> if token_type tok = COMMENT then Suc (length (buf s) - pos s) else 0)")
     (auto split: option.splits dest: comment_progress[OF sym])

declare non_comment_loop.simps [simp del]

lemma non_comment_loop_None: "non_comment_loop None s = (Inr None, s)"
  by (subst non_comment_loop.simps) simp

lemma non_comment_loop_Some:
  "non_comment_loop (Some tok) s =
     (if token_type tok = COMMENT then next_non_comment_token s else (Inr (Some tok), s))"
  by (subst non_comment_loop.simps) (simp add: next_non_comment_token_def)

lemma next_non_comment_token_unfold:
  "next_non_comment_token s =
     (case next_token s of
        (Inr (Some t), s') \<Rightarrow> if token_type t = COMMENT then next_non_comment_token s' else (Inr (Some t), s')
      | (r, s') \<Rightarrow> (r, s'))"
  by (subst next_non_comment_token_def)
     (simp add: non_comment_loop_None non_comment_loop_Some split: prod.splits sum.splits option.splits)

lemma first_non_comment:
  "\<exists>n. (\<forall>i<n. is_comment (next_token (after_calls i s)))
       \<and> next_non_comment_token s = next_token (after_calls n s)
       \<and> \<not> is_comment (next_non_comment_token s)"
proof (induction "length (buf s) - pos s" arbitrary: s rule: less_induct)
  case less
  obtain r s' where nt: "next_token s = (r, s')" by (cases "next_token s")
  show ?case
  proof (cases "is_comment (next_token s)")
    case False
    then have "next_non_comment_token s = next_token s"
      by (subst next_non_comment_token_unfold)
         (auto simp: is_comment_def nt split: sum.splits option.splits)
    with False have "(\<forall>i<0. is_comment (next_token (after_calls i s)))
       \<and> next_non_comment_token s = next_token (after_calls 0 s)
       \<and> \<not> is_comment (next_non_comment_token s)" by simp
    then show ?thesis by blast
  next
    case True
    then obtain t where t: "r = Inr (Some t)" "token_type t = COMMENT"
      by (auto simp: is_comment_def nt split: sum.splits option.splits)
    have "length (buf s') - pos s' < length (buf s) - pos s"
      using comment_progress[of s t s'] nt t by simp
    from less[OF this] obtain n where n: "\<forall>i<n. is_comment (next_token (after_calls i s'))"
      "next_non_comment_token s' = next_token (after_calls n s')"
      "\<not> is_comment (next_non_comment_token s')" by blast
    have eq: "next_non_comment_token s = next_non_comment_token s'"
      by (subst next_non_comment_token_unfold) (simp add: nt t)
    have "\<forall>i<Suc n. is_comment (next_token (after_calls i s))"
    proof (intro allI impI)
      fix i assume "i < Suc n"
      then show "is_comment (next_token (after_calls i s))"
        using True n(1) nt by (cases i) simp_all
    qed
    moreover have "next_non_comment_token s = next_token (after_calls (Suc n) s)"
      using eq n(2) nt by simp
    moreover have "\<not> is_comment (next_non_comment_token s)"
      using eq n(3) by simp
    ultimately show ?thesis by blast
  qed
qed


subsection \<open>The \<open>while\<close> loops return what the total functions return\<close>

lemma ws_while_returns: "ws_while ch s = Some (ws_loop ch s)"
proof (induction ch s rule: ws_loop.induct)
  case (1 ch s)
  show ?case
  proof (cases ch)
    case None
    then show ?thesis by (subst ws_while.simps) (simp add: ws_loop_None)
  next
    case (Some c)
    show ?thesis
    proof (cases "is_whitespace c")
      case False
      with Some show ?thesis by (subst ws_while.simps) (simp add: ws_loop_stop)
    next
      case True
      obtain ch1 s1 where nc: "next_char s = (ch1, s1)" by (cases "next_char s")
      from "1.IH"[OF Some True nc[symmetric]] Some True nc
      show ?thesis by (subst ws_while.simps) (simp add: ws_loop_step)
    qed
  qed
qed

lemma name_while_returns: "name_while acc s = Some (name_loop acc s)"
proof (induction acc s rule: name_loop.induct)
  case (1 acc s)
  obtain ch1 s1 where nc: "next_char s = (ch1, s1)" by (cases "next_char s")
  show ?case
  proof (cases ch1)
    case None
    with nc show ?thesis
      by (subst name_while.simps, subst name_loop.simps) simp
  next
    case (Some c)
    show ?thesis
    proof (cases "is_delimiter c")
      case True
      with nc Some show ?thesis
        by (subst name_while.simps, subst name_loop.simps) simp
    next
      case False
      from "1.IH"[OF nc[symmetric] Some False] nc Some False
      show ?thesis
        by (subst name_while.simps, subst name_loop.simps) simp
    qed
  qed
qed

lemma scan_while_opt_returns: "scan_while_opt P ch acc s = Some (scan_while P ch acc s)"
proof (induction P ch acc s rule: scan_while.induct)
  case (1 P ch acc s)
  show ?case
  proof (cases ch)
    case None
    then show ?thesis by (subst scan_while_opt.simps) (simp add: scan_while_None)
  next
    case (Some c)
    show ?thesis
    proof (cases "P c")
      case False
      with Some show ?thesis by (subst scan_while_opt.simps) (simp add: scan_while_stop)
    next
      case True
      obtain ch1 s1 where nc: "next_char s = (ch1, s1)" by (cases "next_char s")
      from "1.IH"[OF Some True nc[symmetric]] Some True nc
      show ?thesis by (subst scan_while_opt.simps, subst scan_while.simps) simp
    qed
  qed
qed

lemma hex_while_returns: "hex_while acc s = Some (hex_loop acc s)"
proof (induction acc s rule: hex_loop.induct)
  case (1 acc s)
  obtain ch1 s1 where nc: "next_char s = (ch1, s1)" by (cases "next_char s")
  show ?case
  proof (cases ch1)
    case None
    with nc show ?thesis
      by (subst hex_while.simps, subst hex_loop.simps) simp
  next
    case (Some c)
    show ?thesis
    proof (cases "c = CHR ''>''")
      case True
      with nc Some show ?thesis
        by (subst hex_while.simps, subst hex_loop.simps) simp
    next
      case False
      from "1.IH"[OF nc[symmetric] Some False] nc Some False
      show ?thesis
        by (subst hex_while.simps, subst hex_loop.simps) simp
    qed
  qed
qed

lemma string_while_returns: "string_while n acc s = Some (string_loop n acc s)"
proof (induction n acc s rule: string_loop.induct)
  case (1 n acc s)
  obtain ch1 s1 where nc: "next_char s = (ch1, s1)" by (cases "next_char s")
  show ?case
  proof (cases ch1)
    case None
    with nc show ?thesis
      by (subst string_while.simps, subst string_loop.simps) simp
  next
    case (Some c)
    show ?thesis
    proof (cases "c = backslash")
      case True
      obtain ch2 s2 where nc2: "next_char s1 = (ch2, s2)" by (cases "next_char s1")
      from "1.IH"(1)[OF nc[symmetric] Some True nc2[symmetric]] nc Some True nc2
      show ?thesis
        by (subst string_while.simps, subst string_loop.simps) simp
    next
      case False
      define l1 where "l1 = (if c = CHR ''('' then n + 1 else n)"
      define l2 where "l2 = (if c = CHR '')'' then l1 - 1 else l1)"
      have e1: "string_loop n acc s =
          (if l2 = 0 then (Some c, l2, acc @ [c], s1) else string_loop l2 (acc @ [c]) s1)"
        using False by (subst string_loop.simps) (simp add: nc Some Let_def l1_def l2_def)
      have e2: "string_while n acc s =
          (if l2 = 0 then Some (Some c, l2, acc @ [c], s1) else string_while l2 (acc @ [c]) s1)"
        using False by (subst string_while.simps) (simp add: nc Some Let_def l1_def l2_def)
      show ?thesis
      proof (cases "l2 = 0")
        case True
        then show ?thesis by (simp add: e1 e2)
      next
        case nz: False
        from "1.IH"(2)[OF nc[symmetric] Some False l1_def l2_def refl nz] nz
        show ?thesis by (simp add: e1 e2)
      qed
    qed
  qed
qed

lemma dispatch_opt_returns: "dispatch_opt ch s = Some (dispatch ch s)"
  unfolding dispatch_opt_def dispatch_def comment_loop_def number_loop_def other_loop_def
  by (simp add: name_while_returns scan_while_opt_returns hex_while_returns string_while_returns
      Let_def split: prod.splits)


subsection \<open>Which tokens have an empty text\<close>

lemma of_char_cases:
  "(of_char c :: int) = 37 \<Longrightarrow> c = CHR ''%''"
  "(of_char c :: int) = 40 \<Longrightarrow> c = CHR ''(''"
  "(of_char c :: int) = 41 \<Longrightarrow> c = CHR '')''"
  "(of_char c :: int) = 47 \<Longrightarrow> c = CHR ''/''"
  "(of_char c :: int) = 60 \<Longrightarrow> c = CHR ''<''"
  "(of_char c :: int) = 62 \<Longrightarrow> c = CHR ''>''"
  "(of_char c :: int) = 91 \<Longrightarrow> c = CHR ''[''"
  "(of_char c :: int) = 93 \<Longrightarrow> c = CHR '']''"
proof -
  have inj: "\<And>d. (of_char c :: int) = of_char d \<Longrightarrow> c = d" by simp
  show "(of_char c :: int) = 37 \<Longrightarrow> c = CHR ''%''" by (rule inj) simp
  show "(of_char c :: int) = 40 \<Longrightarrow> c = CHR ''(''" by (rule inj) simp
  show "(of_char c :: int) = 41 \<Longrightarrow> c = CHR '')''" by (rule inj) simp
  show "(of_char c :: int) = 47 \<Longrightarrow> c = CHR ''/''" by (rule inj) simp
  show "(of_char c :: int) = 60 \<Longrightarrow> c = CHR ''<''" by (rule inj) simp
  show "(of_char c :: int) = 62 \<Longrightarrow> c = CHR ''>''" by (rule inj) simp
  show "(of_char c :: int) = 91 \<Longrightarrow> c = CHR ''[''" by (rule inj) simp
  show "(of_char c :: int) = 93 \<Longrightarrow> c = CHR '']''" by (rule inj) simp
qed

lemma of_char_nonneg: "(of_char c :: int) \<noteq> - 1"
proof -
  have "(of_char c :: int) = int (of_char c)" by (rule of_nat_of_char[symmetric])
  then show ?thesis by linarith
qed

lemma delimiter_cases:
  assumes "is_delimiter c" "\<not> is_whitespace c"
  shows "c \<in> {CHR ''%'', CHR ''('', CHR '')'', CHR ''/'', CHR ''<'', CHR ''>'', CHR ''['', CHR '']''}"
proof -
  define x where "x = (of_char c :: int)"
  have "x \<in> set [- 1, 0, 9, 10, 12, 13, 32, 37, 40, 41, 47, 60, 62, 91, 93]"
    and "x \<notin> set [0, 9, 10, 12, 13, 32]" and "x \<noteq> - 1"
    using assms of_char_nonneg[of c] unfolding is_delimiter_def is_whitespace_def x_def
    by blast+
  then have "x = 37 \<or> x = 40 \<or> x = 41 \<or> x = 47 \<or> x = 60 \<or> x = 62 \<or> x = 91 \<or> x = 93"
    by auto
  then show ?thesis
  proof (elim disjE)
    assume "x = 37"
    then have "c = CHR ''%''" unfolding x_def by (rule of_char_cases(1))
    then show ?thesis by simp
  next
    assume "x = 40"
    then have "c = CHR ''(''" unfolding x_def by (rule of_char_cases(2))
    then show ?thesis by simp
  next
    assume "x = 41"
    then have "c = CHR '')''" unfolding x_def by (rule of_char_cases(3))
    then show ?thesis by simp
  next
    assume "x = 47"
    then have "c = CHR ''/''" unfolding x_def by (rule of_char_cases(4))
    then show ?thesis by simp
  next
    assume "x = 60"
    then have "c = CHR ''<''" unfolding x_def by (rule of_char_cases(5))
    then show ?thesis by simp
  next
    assume "x = 62"
    then have "c = CHR ''>''" unfolding x_def by (rule of_char_cases(6))
    then show ?thesis by simp
  next
    assume "x = 91"
    then have "c = CHR ''[''" unfolding x_def by (rule of_char_cases(7))
    then show ?thesis by simp
  next
    assume "x = 93"
    then have "c = CHR '']''" unfolding x_def by (rule of_char_cases(8))
    then show ?thesis by simp
  qed
qed

lemma scan_while_prefix:
  "scan_while P ch acc s = (ch', out, s') \<Longrightarrow> \<exists>r. out = acc @ r"
proof (induction P ch acc s rule: scan_while.induct)
  case (1 P ch acc s)
  show ?case
  proof (cases ch)
    case None
    with "1.prems" show ?thesis by (simp add: scan_while_None)
  next
    case (Some c)
    show ?thesis
    proof (cases "P c")
      case False
      with Some "1.prems" show ?thesis by (simp add: scan_while_stop)
    next
      case True
      obtain ch1 s1 where nc: "next_char s = (ch1, s1)" by (cases "next_char s")
      from "1.prems" Some True nc have "scan_while P ch1 (acc @ [c]) s1 = (ch', out, s')"
        by (subst (asm) scan_while.simps) simp
      from "1.IH"[OF Some True nc[symmetric] this]
      show ?thesis by auto
    qed
  qed
qed

lemma scan_while_nonempty:
  assumes "P c" "scan_while P (Some c) [] s = (ch', out, s')"
  shows "out \<noteq> []"
proof -
  obtain ch1 s1 where nc: "next_char s = (ch1, s1)" by (cases "next_char s")
  from assms nc have "scan_while P ch1 [c] s1 = (ch', out, s')"
    by (subst (asm) scan_while.simps) simp
  from scan_while_prefix[OF this] show ?thesis by auto
qed

lemma name_loop_prefix: "name_loop acc s = (ch', out, s') \<Longrightarrow> \<exists>r. out = acc @ r"
  by (auto simp: name_loop_run[OF refl] Let_def)

lemma hex_loop_prefix: "hex_loop acc s = (ch', out, s') \<Longrightarrow> \<exists>r. out = acc @ r"
  by (cases "CHR ''>'' \<in> set (drop (pos s) (buf s))")
     (auto simp: hex_loop_closed[OF refl] hex_loop_open[OF refl] Let_def)

lemma dispatch_brackets:
  "dispatch (Some CHR ''['') s =
     (Inr (Some \<lparr>byte_offset = int (pos s) - 1, token_type = START_ARRAY, text_str = ''[''\<rparr>), s)"
  "dispatch (Some CHR '']'') s =
     (Inr (Some \<lparr>byte_offset = int (pos s) - 1, token_type = END_ARRAY, text_str = '']''\<rparr>), s)"
  by (simp_all add: dispatch_def tell_def)

lemma dispatch_name:
  "dispatch (Some CHR ''/'') s =
     (case name_loop ''/'' s of (ch, out_str, s') \<Rightarrow>
        (Inr (Some \<lparr>byte_offset = int (pos s) - 1, token_type = NAME, text_str = out_str\<rparr>),
         if ch \<noteq> None then prev_char s' else s'))"
  by (simp add: dispatch_def tell_def Let_def)

lemma dispatch_percent:
  "dispatch (Some CHR ''%'') s =
     (case scan_while (\<lambda>c. c \<noteq> CHR 0x0D \<and> c \<noteq> CHR 0x0A) (Some CHR ''%'') [] s of
        (ch, out_str, s') \<Rightarrow>
        (Inr (Some \<lparr>byte_offset = int (pos s) - 1, token_type = COMMENT, text_str = out_str\<rparr>),
         if ch \<noteq> None then prev_char s' else s'))"
  by (simp add: dispatch_def tell_def Let_def comment_loop_def)

lemma dispatch_number:
  assumes "c \<in> set number_chars"
  shows "dispatch (Some c) s =
     (case scan_while (\<lambda>c. py_in [c] number_chars) (Some c) [] s of
        (ch, out_str, s') \<Rightarrow>
        (Inr (Some \<lparr>byte_offset = int (pos s) - 1, token_type = NUMBER, text_str = out_str\<rparr>),
         if ch \<noteq> None then prev_char s' else s'))"
proof -
  have "c \<notin> {CHR ''['', CHR '']'', CHR ''/'', CHR ''>'', CHR ''%'', CHR ''<''}"
    using assms by (auto simp: number_chars_def)
  then show ?thesis
    using assms by (simp add: dispatch_def tell_def Let_def number_loop_def py_in_single)
qed

lemma dispatch_other:
  assumes "c \<notin> {CHR ''['', CHR '']'', CHR ''/'', CHR ''>'', CHR ''%'', CHR ''<'', CHR ''(''}"
    and "c \<notin> set number_chars"
  shows "dispatch (Some c) s =
     (case scan_while (\<lambda>c. \<not> is_delimiter c) (Some c) [] s of
        (ch, out_str, s') \<Rightarrow>
        (Inr (Some \<lparr>byte_offset = int (pos s) - 1, token_type = OTHER, text_str = out_str\<rparr>),
         if ch \<noteq> None then prev_char s' else s'))"
  using assms by (simp add: dispatch_def tell_def Let_def other_loop_def py_in_single)

lemma dispatch_text:
  assumes "dispatch (Some c) s = (Inr (Some t), s')" "\<not> is_whitespace c"
  shows "text_str t = [] \<longleftrightarrow> c = CHR '')''"
proof -
  consider "c = CHR ''[''" | "c = CHR '']''" | "c = CHR ''/''" | "c = CHR ''>''" | "c = CHR ''%''"
    | "c = CHR ''<''" | "c = CHR ''(''" | "c = CHR '')''"
    | "c \<in> set number_chars"
    | "c \<noteq> CHR ''[''" "c \<noteq> CHR '']''" "c \<noteq> CHR ''/''" "c \<noteq> CHR ''>''"
      "c \<noteq> CHR ''%''" "c \<noteq> CHR ''<''" "c \<noteq> CHR ''(''" "c \<noteq> CHR '')''"
      "c \<notin> set number_chars"
    by argo
  then show ?thesis
  proof cases
    case 1
    with assms(1) show ?thesis by (auto simp: dispatch_brackets)
  next
    case 2
    with assms(1) show ?thesis by (auto simp: dispatch_brackets)
  next
    case 3
    obtain ch out s1 where l: "name_loop ''/'' s = (ch, out, s1)" by (cases "name_loop ''/'' s") auto
    from name_loop_prefix[OF l] assms(1) 3 l show ?thesis by (auto simp: dispatch_name)
  next
    case 4
    with assms(1) show ?thesis by (auto simp: dispatch_gt split: prod.splits if_splits)
  next
    case 5
    let ?P = "\<lambda>c. c \<noteq> CHR 0x0D \<and> c \<noteq> CHR 0x0A"
    obtain ch out s1 where l: "scan_while ?P (Some CHR ''%'') [] s = (ch, out, s1)"
      by (cases "scan_while ?P (Some CHR ''%'') [] s") auto
    from scan_while_nonempty[OF _ l] have "out \<noteq> []" by simp
    with assms(1) 5 l show ?thesis by (auto simp: dispatch_percent)
  next
    case 6
    obtain ch1 s1 where nc: "next_char s = (ch1, s1)" by (cases "next_char s")
    obtain ch out s2 where l: "hex_loop (''<'' @ str_of ch1) s1 = (ch, out, s2)"
      by (cases "hex_loop (''<'' @ str_of ch1) s1") auto
    from hex_loop_prefix[OF l] assms(1) 6 nc l show ?thesis
      by (auto simp: dispatch_lt split: if_splits)
  next
    case 7
    obtain ch n out s1 where l: "string_loop 1 ''('' s = (ch, n, out, s1)"
      by (cases "string_loop 1 ''('' s") auto
    show ?thesis
    proof (cases ch)
      case None
      with assms(1) 7 l show ?thesis by (simp add: dispatch_open_paren)
    next
      case (Some d)
      from string_loop_last[OF l[unfolded Some]] assms(1) 7 l Some show ?thesis
        by (auto simp: dispatch_open_paren split: if_splits)
    qed
  next
    case 8
    with assms(1) show ?thesis by (auto simp: dispatch_close_paren)
  next
    case 9
    let ?P = "\<lambda>c. py_in [c] number_chars"
    obtain ch out s1 where l: "scan_while ?P (Some c) [] s = (ch, out, s1)"
      by (cases "scan_while ?P (Some c) [] s") auto
    from scan_while_nonempty[OF _ l] 9 have "out \<noteq> []" by (simp add: py_in_single)
    moreover have "c \<noteq> CHR '')''" using 9 by (auto simp: number_chars_def)
    ultimately show ?thesis
      using assms(1) l by (auto simp: dispatch_number[OF 9])
  next
    case 10
    have nd: "\<not> is_delimiter c"
    proof
      assume "is_delimiter c"
      from delimiter_cases[OF this assms(2)] 10 show False by simp
    qed
    let ?P = "\<lambda>c. \<not> is_delimiter c"
    obtain ch out s1 where l: "scan_while ?P (Some c) [] s = (ch, out, s1)"
      by (cases "scan_while ?P (Some c) [] s") auto
    from scan_while_nonempty[OF _ l] nd have "out \<noteq> []" by simp
    moreover have "dispatch (Some c) s =
       (Inr (Some \<lparr>byte_offset = int (pos s) - 1, token_type = OTHER, text_str = out\<rparr>),
         if ch \<noteq> None then prev_char s1 else s1)"
      using dispatch_other[of c s] 10 l by simp
    ultimately show ?thesis
      using assms(1) 10 by auto
  qed
qed

lemma lexeme_at_unique: "lexeme_at s q \<Longrightarrow> lexeme_at s q' \<Longrightarrow> q = q'"
proof (rule ccontr)
  assume a: "lexeme_at s q" "lexeme_at s q'" and ne: "q \<noteq> q'"
  then consider "q < q'" | "q' < q" by linarith
  then show False
    using a by cases (auto simp: lexeme_at_def)
qed

lemma lexeme_not_only_whitespace: "lexeme_at s q \<Longrightarrow> \<not> only_whitespace s"
  by (auto simp: lexeme_at_def only_whitespace_def)

subsection \<open>A source that ends on a backslash\<close>

lemma nesting_trailing_backslash: "nesting n (r @ [backslash]) = nesting n r"
proof (induction n r rule: nesting.induct)
  case (1 n)
  show ?case by simp
next
  case (2 n c cs)
  show ?case
  proof (cases "c = backslash")
    case True
    show ?thesis
    proof (cases cs)
      case Nil
      with True show ?thesis by simp
    next
      case (Cons d ds)
      with True "2.IH"(1) show ?thesis by simp
    qed
  next
    case False
    with "2.IH"(2-4) show ?thesis by (auto simp: bs_neq)
  qed
qed

lemma open_with_trailing_backslash:
  assumes "\<forall>k\<le>length r. nesting n (take k r) \<noteq> 0"
  shows "\<forall>k\<le>length (r @ [backslash]). nesting n (take k (r @ [backslash])) \<noteq> 0"
proof (intro allI impI)
  fix k assume k: "k \<le> length (r @ [backslash])"
  show "nesting n (take k (r @ [backslash])) \<noteq> 0"
  proof (cases "k \<le> length r")
    case True
    with assms show ?thesis by simp
  next
    case False
    with k have "k = Suc (length r)" by simp
    then have "take k (r @ [backslash]) = r @ [backslash]" by simp
    with assms[rule_format, of "length r"] show ?thesis
      by (simp add: nesting_trailing_backslash)
  qed
qed


section \<open>The claims\<close>

text \<open>Claim C1. The claim: when every byte from the current position on is whitespace,
  \<open>next_token\<close> produces the end of the stream (\<open>None\<close>) and no token. The code
  does so only when no byte is left at all (\<open>next_token_eof\<close>). When at least one
  whitespace byte is left, the skip ends with the empty string in \<open>ch\<close>, the test
  \<open>ch in "-+.0123456789"\<close> holds for the empty string, and the number case returns a
  \<open>NUMBER\<close> token with the empty text at the offset of the last byte.\<close>

theorem whitespace_tail_is_number:
  "only_whitespace s \<Longrightarrow> pos s < length (buf s) \<Longrightarrow>
   next_token s =
     (Inr (Some \<lparr>byte_offset = int (length (buf s)) - 1, token_type = NUMBER, text_str = []\<rparr>),
      s\<lparr>pos := length (buf s)\<rparr>)
   \<and> fst (next_token s) \<noteq> Inr None"
  by (simp add: trailing_whitespace)

theorem whitespace_tail_is_number_witness:
  "only_whitespace \<lparr>buf = [CHR 0x0A], pos = 0\<rparr>
   \<and> pos \<lparr>buf = [CHR 0x0A], pos = 0\<rparr> < length (buf \<lparr>buf = [CHR 0x0A], pos = 0\<rparr>)
   \<and> next_token \<lparr>buf = [CHR 0x0A], pos = 0\<rparr> =
       (Inr (Some \<lparr>byte_offset = 0, token_type = NUMBER, text_str = []\<rparr>), \<lparr>buf = [CHR 0x0A], pos = 1\<rparr>)
   \<and> fst (next_token \<lparr>buf = [CHR 0x0A], pos = 0\<rparr>) \<noteq> Inr None"
  using whitespace_tail_is_number[of "\<lparr>buf = [CHR 0x0A], pos = 0\<rparr>"]
  by (simp add: only_whitespace_def is_whitespace_def)

text \<open>Claim C2. The claim: every token that \<open>next_token\<close> returns has a text that is
  not empty. The code returns a token with the empty text in two situations, and in
  no other: when only whitespace is left (a \<open>NUMBER\<close> token, see C1), and when
  the next byte that is not whitespace is \<open>)\<close> (an \<open>OTHER\<close> token, see C3).\<close>

theorem empty_text_tokens:
  "fst (next_token s) = Inr (Some t) \<Longrightarrow>
   (text_str t = [] \<longleftrightarrow> only_whitespace s \<or> (\<exists>q. lexeme_at s q \<and> buf s ! q = CHR '')''))"
proof -
  assume nt: "fst (next_token s) = Inr (Some t)"
  have lt: "pos s < length (buf s)"
    using nt by (cases "pos s < length (buf s)") (simp_all add: next_token_eof)
  from lexeme_cases[OF lt] show ?thesis
  proof
    assume ow: "only_whitespace s"
    from trailing_whitespace[OF ow lt] nt ow show ?thesis by auto
  next
    assume "\<exists>q. lexeme_at s q"
    then obtain q where la: "lexeme_at s q" by blast
    obtain r s' where d: "dispatch (Some (buf s ! q)) (s\<lparr>pos := Suc q\<rparr>) = (r, s')"
      by (cases "dispatch (Some (buf s ! q)) (s\<lparr>pos := Suc q\<rparr>)")
    with nt next_token_lexeme[OF la] have r: "r = Inr (Some t)" by simp
    have "\<not> is_whitespace (buf s ! q)" using la by (simp add: lexeme_at_def)
    from dispatch_text[OF d[unfolded r] this]
    have "text_str t = [] \<longleftrightarrow> buf s ! q = CHR '')''" .
    moreover have "(\<exists>q'. lexeme_at s q' \<and> buf s ! q' = CHR '')'') \<longleftrightarrow> buf s ! q = CHR '')''"
    proof
      assume "\<exists>q'. lexeme_at s q' \<and> buf s ! q' = CHR '')''"
      then obtain q' where q': "lexeme_at s q'" "buf s ! q' = CHR '')''" by blast
      from lexeme_at_unique[OF la q'(1)] q'(2) show "buf s ! q = CHR '')''" by simp
    next
      assume "buf s ! q = CHR '')''"
      with la show "\<exists>q'. lexeme_at s q' \<and> buf s ! q' = CHR '')''" by blast
    qed
    ultimately show ?thesis
      using lexeme_not_only_whitespace[OF la] by simp
  qed
qed

theorem empty_text_tokens_witness:
  "fst (next_token \<lparr>buf = ''1 '', pos = 1\<rparr>) =
     Inr (Some \<lparr>byte_offset = 1, token_type = NUMBER, text_str = []\<rparr>)
   \<and> only_whitespace \<lparr>buf = ''1 '', pos = 1\<rparr>"
proof -
  let ?s = "\<lparr>buf = ''1 '', pos = 1\<rparr>"
  let ?t = "\<lparr>byte_offset = 1, token_type = NUMBER, text_str = []\<rparr>"
  have a: "fst (next_token ?s) = Inr (Some ?t)" by code_simp
  have b: "only_whitespace ?s" by code_simp
  from empty_text_tokens[OF a] a b show ?thesis by simp
qed

text \<open>Claim C3. When the next byte that is not whitespace is \<open>)\<close>, at offset \<open>q\<close>,
  \<open>next_token\<close> returns an \<open>OTHER\<close> token with the empty text and the offset
  \<open>q\<close>, and leaves the position at \<open>q\<close>: the byte is pushed back. Every later call
  finds the source in that same state and returns the same token again.\<close>

theorem close_paren_no_progress:
  "lexeme_at s q \<Longrightarrow> buf s ! q = CHR '')'' \<Longrightarrow>
   next_token s =
     (Inr (Some \<lparr>byte_offset = int q, token_type = OTHER, text_str = []\<rparr>), s\<lparr>pos := q\<rparr>)
   \<and> (\<forall>n. after_calls (Suc n) s = s\<lparr>pos := q\<rparr>
          \<and> next_token (after_calls (Suc n) s) =
              (Inr (Some \<lparr>byte_offset = int q, token_type = OTHER, text_str = []\<rparr>), s\<lparr>pos := q\<rparr>))"
  using close_paren_once[of s q] close_paren_after[of s q] close_paren_once[of "s\<lparr>pos := q\<rparr>" q]
    lexeme_at_self[of s q]
  by simp

theorem close_paren_no_progress_witness:
  "lexeme_at \<lparr>buf = '' )x'', pos = 0\<rparr> 1 \<and> buf \<lparr>buf = '' )x'', pos = 0\<rparr> ! 1 = CHR '')''
   \<and> next_token \<lparr>buf = '' )x'', pos = 0\<rparr> =
     (Inr (Some \<lparr>byte_offset = 1, token_type = OTHER, text_str = []\<rparr>), \<lparr>buf = '' )x'', pos = 1\<rparr>)
   \<and> (\<forall>n. after_calls (Suc n) \<lparr>buf = '' )x'', pos = 0\<rparr> = \<lparr>buf = '' )x'', pos = 1\<rparr>
          \<and> next_token (after_calls (Suc n) \<lparr>buf = '' )x'', pos = 0\<rparr>) =
              (Inr (Some \<lparr>byte_offset = 1, token_type = OTHER, text_str = []\<rparr>), \<lparr>buf = '' )x'', pos = 1\<rparr>))"
proof -
  let ?s = "\<lparr>buf = '' )x'', pos = 0\<rparr>"
  have a: "lexeme_at ?s 1" by (simp add: lexeme_at_def is_whitespace_def)
  have b: "buf ?s ! 1 = CHR '')''" by simp
  have c: "?s\<lparr>pos := 1\<rparr> = \<lparr>buf = '' )x'', pos = 1\<rparr>" by simp
  from a b close_paren_no_progress[OF a b, unfolded c of_nat_1] show ?thesis by blast
qed

text \<open>Claim C4, as amended. When the next byte that is not whitespace is \<open>>\<close>, at
  offset \<open>q\<close>: if the byte after it is a second \<open>>\<close>, \<open>next_token\<close> returns an
  \<open>END_DICT\<close> token with the text \<open>>>\<close> at offset \<open>q\<close>; with any other byte
  there, or none, the call fails with \<open>AssertionError\<close> and returns no token. The
  error is the one that every failed check of \<open>next_token\<close> raises (an
  unterminated literal string fails with the same error), so it does not identify
  the condition.\<close>

theorem end_dict_or_assertion:
  "lexeme_at s q \<Longrightarrow> buf s ! q = CHR ''>'' \<Longrightarrow>
   next_token s =
     (if Suc q < length (buf s) \<and> buf s ! Suc q = CHR ''>''
      then (Inr (Some \<lparr>byte_offset = int q, token_type = END_DICT, text_str = ''>>''\<rparr>),
            s\<lparr>pos := q + 2\<rparr>)
      else (Inl AssertionError, s\<lparr>pos := min (q + 2) (length (buf s))\<rparr>))"
  by (rule end_dict)

theorem end_dict_or_assertion_witness:
  "lexeme_at \<lparr>buf = ''>x'', pos = 0\<rparr> 0 \<and> buf \<lparr>buf = ''>x'', pos = 0\<rparr> ! 0 = CHR ''>''
   \<and> next_token \<lparr>buf = ''>x'', pos = 0\<rparr> = (Inl AssertionError, \<lparr>buf = ''>x'', pos = 2\<rparr>)
   \<and> lexeme_at \<lparr>buf = '' >>'', pos = 0\<rparr> 1 \<and> buf \<lparr>buf = '' >>'', pos = 0\<rparr> ! 1 = CHR ''>''
   \<and> next_token \<lparr>buf = '' >>'', pos = 0\<rparr> =
       (Inr (Some \<lparr>byte_offset = 1, token_type = END_DICT, text_str = ''>>''\<rparr>), \<lparr>buf = '' >>'', pos = 3\<rparr>)"
  using end_dict_or_assertion[of "\<lparr>buf = ''>x'', pos = 0\<rparr>" 0]
    end_dict_or_assertion[of "\<lparr>buf = '' >>'', pos = 0\<rparr>" 1]
  by (simp add: lexeme_at_def is_whitespace_def)

text \<open>The claim C4 as stated asks for an error that identifies the dictionary-close
  condition. A lone \<open>>\<close> and an unterminated literal string fail with the same
  error, \<open>AssertionError\<close>.\<close>

theorem dict_close_error_not_distinct:
  "fst (next_token \<lparr>buf = ''>'', pos = 0\<rparr>) = Inl AssertionError
   \<and> fst (next_token \<lparr>buf = ''(abc'', pos = 0\<rparr>) = Inl AssertionError
   \<and> \<not> (fst (next_token \<lparr>buf = ''>'', pos = 0\<rparr>) \<noteq> fst (next_token \<lparr>buf = ''(abc'', pos = 0\<rparr>))"
  by code_simp

text \<open>Claim C5. When the next byte that is not whitespace is \<open>(\<close>, at offset
  \<open>q\<close>, and the nesting counter, started at 1, is 0 after no prefix of the bytes
  that follow (the source runs out first), \<open>next_token\<close> fails with
  \<open>AssertionError\<close>: it returns no \<open>STRING\<close> token. So it does when the source
  ends on a backslash and the counter is 0 after no prefix of the bytes between the
  \<open>(\<close> and that backslash.\<close>

theorem unterminated_string_fails:
  "lexeme_at s q \<Longrightarrow> buf s ! q = CHR ''('' \<Longrightarrow>
   (\<forall>k\<le>length (drop (Suc q) (buf s)). nesting 1 (take k (drop (Suc q) (buf s))) \<noteq> 0)
   \<or> (\<exists>r. drop (Suc q) (buf s) = r @ [backslash]
           \<and> (\<forall>k\<le>length r. nesting 1 (take k r) \<noteq> 0)) \<Longrightarrow>
   fst (next_token s) = Inl AssertionError"
proof -
  assume la: "lexeme_at s q" and c: "buf s ! q = CHR ''(''"
    and d: "(\<forall>k\<le>length (drop (Suc q) (buf s)). nesting 1 (take k (drop (Suc q) (buf s))) \<noteq> 0)
      \<or> (\<exists>r. drop (Suc q) (buf s) = r @ [backslash]
           \<and> (\<forall>k\<le>length r. nesting 1 (take k r) \<noteq> 0))"
  from d have "\<forall>k\<le>length (drop (Suc q) (buf s)). nesting 1 (take k (drop (Suc q) (buf s))) \<noteq> 0"
  proof
    assume "\<exists>r. drop (Suc q) (buf s) = r @ [backslash]
           \<and> (\<forall>k\<le>length r. nesting 1 (take k r) \<noteq> 0)"
    then obtain r where r: "drop (Suc q) (buf s) = r @ [backslash]"
      "\<forall>k\<le>length r. nesting 1 (take k r) \<noteq> 0" by blast
    from open_with_trailing_backslash[OF r(2)] show ?thesis
      unfolding r(1) .
  qed
  from unterminated_string[OF la c this] show ?thesis .
qed

theorem unterminated_string_fails_witness:
  "lexeme_at \<lparr>buf = ''(a(b)c'', pos = 0\<rparr> 0
   \<and> buf \<lparr>buf = ''(a(b)c'', pos = 0\<rparr> ! 0 = CHR ''(''
   \<and> list_all (\<lambda>k. nesting 1 (take k ''a(b)c'') \<noteq> 0) [0..<6]
   \<and> fst (next_token \<lparr>buf = ''(a(b)c'', pos = 0\<rparr>) = Inl AssertionError
   \<and> lexeme_at \<lparr>buf = ''(abc'' @ [backslash], pos = 0\<rparr> 0
   \<and> buf \<lparr>buf = ''(abc'' @ [backslash], pos = 0\<rparr> ! 0 = CHR ''(''
   \<and> list_all (\<lambda>k. nesting 1 (take k ''abc'') \<noteq> 0) [0..<4]
   \<and> fst (next_token \<lparr>buf = ''(abc'' @ [backslash], pos = 0\<rparr>) = Inl AssertionError"
proof -
  let ?s1 = "\<lparr>buf = ''(a(b)c'', pos = 0\<rparr>"
  let ?s2 = "\<lparr>buf = ''(abc'' @ [backslash], pos = 0\<rparr>"
  have a1: "lexeme_at ?s1 0" by (simp add: lexeme_at_def is_whitespace_def)
  have b1: "buf ?s1 ! 0 = CHR ''(''" by simp
  have l1: "list_all (\<lambda>k. nesting 1 (take k ''a(b)c'') \<noteq> 0) [0..<6]" by code_simp
  have "\<forall>k\<le>length ''a(b)c''. nesting 1 (take k ''a(b)c'') \<noteq> 0"
    unfolding all_le_upt by code_simp
  then have c1: "(\<forall>k\<le>length (drop (Suc 0) (buf ?s1)). nesting 1 (take k (drop (Suc 0) (buf ?s1))) \<noteq> 0)
    \<or> (\<exists>r. drop (Suc 0) (buf ?s1) = r @ [backslash] \<and> (\<forall>k\<le>length r. nesting 1 (take k r) \<noteq> 0))"
    by simp
  have a2: "lexeme_at ?s2 0" by (simp add: lexeme_at_def is_whitespace_def)
  have b2: "buf ?s2 ! 0 = CHR ''(''" by simp
  have l2: "list_all (\<lambda>k. nesting 1 (take k ''abc'') \<noteq> 0) [0..<4]" by code_simp
  have "\<forall>k\<le>length ''abc''. nesting 1 (take k ''abc'') \<noteq> 0"
    unfolding all_le_upt by code_simp
  then have "\<exists>r. drop (Suc 0) (buf ?s2) = r @ [backslash] \<and> (\<forall>k\<le>length r. nesting 1 (take k r) \<noteq> 0)"
    by (intro exI[of _ "''abc''"]) simp
  then have c2: "(\<forall>k\<le>length (drop (Suc 0) (buf ?s2)). nesting 1 (take k (drop (Suc 0) (buf ?s2))) \<noteq> 0)
    \<or> (\<exists>r. drop (Suc 0) (buf ?s2) = r @ [backslash] \<and> (\<forall>k\<le>length r. nesting 1 (take k r) \<noteq> 0))"
    by (rule disjI2)
  from a1 b1 l1 a2 b2 l2 unterminated_string_fails[OF a1 b1 c1] unterminated_string_fails[OF a2 b2 c2]
  show ?thesis by blast
qed

text \<open>Claim C6. When the next byte that is not whitespace is \<open><\<close>, at offset
  \<open>q\<close>, the byte after it is not a second \<open><\<close>, and no \<open>>\<close> follows before
  the source runs out, \<open>next_token\<close> does not fail: it returns a \<open>HEX_STRING\<close>
  token at offset \<open>q\<close> whose text is every byte from \<open>q\<close> to the end of the
  source, the bytes read so far, and leaves the position at the end. (A literal
  string that the source cuts short fails, see C5.)\<close>

theorem truncated_hex_string_returned:
  "lexeme_at s q \<Longrightarrow> buf s ! q = CHR ''<'' \<Longrightarrow>
   (Suc q < length (buf s) \<longrightarrow> buf s ! Suc q \<noteq> CHR ''<'') \<Longrightarrow>
   CHR ''>'' \<notin> set (drop (Suc q) (buf s)) \<Longrightarrow>
   next_token s =
     (Inr (Some \<lparr>byte_offset = int q, token_type = HEX_STRING, text_str = drop q (buf s)\<rparr>),
      s\<lparr>pos := length (buf s)\<rparr>)"
  by (rule truncated_hex)

theorem truncated_hex_string_returned_witness:
  "lexeme_at \<lparr>buf = ''  <48656C'', pos = 0\<rparr> 2
   \<and> buf \<lparr>buf = ''  <48656C'', pos = 0\<rparr> ! 2 = CHR ''<''
   \<and> buf \<lparr>buf = ''  <48656C'', pos = 0\<rparr> ! 3 \<noteq> CHR ''<''
   \<and> CHR ''>'' \<notin> set (drop 3 ''  <48656C'')
   \<and> next_token \<lparr>buf = ''  <48656C'', pos = 0\<rparr> =
       (Inr (Some \<lparr>byte_offset = 2, token_type = HEX_STRING, text_str = ''<48656C''\<rparr>),
        \<lparr>buf = ''  <48656C'', pos = 9\<rparr>)
   \<and> fst (next_token \<lparr>buf = ''  (48656C'', pos = 0\<rparr>) = Inl AssertionError"
proof -
  let ?s = "\<lparr>buf = ''  <48656C'', pos = 0\<rparr>"
  have lit: "fst (next_token \<lparr>buf = ''  (48656C'', pos = 0\<rparr>) = Inl AssertionError"
    by code_simp
  have a: "lexeme_at ?s 2" by code_simp
  have b: "buf ?s ! 2 = CHR ''<''" by simp
  have c: "Suc 2 < length (buf ?s) \<longrightarrow> buf ?s ! Suc 2 \<noteq> CHR ''<''" by simp
  have d: "CHR ''>'' \<notin> set (drop (Suc 2) (buf ?s))" by simp
  from truncated_hex_string_returned[OF a b c d] a lit show ?thesis by simp
qed

text \<open>Claim C7. When the next byte that is not whitespace is \<open>(\<close>, at offset
  \<open>q\<close>, and \<open>k\<close> is the first length at which the nesting counter of the
  specification, started at 1, is 0 on the \<open>k\<close> bytes that follow, \<open>next_token\<close>
  returns one \<open>STRING\<close> token at offset \<open>q\<close> whose text is these \<open>k + 1\<close> bytes
  of the source, unchanged, the last one the closing \<open>)\<close>, and the position is
  just after it. On the input \<^verbatim>\<open>(Hello \(World\))\<close> the text of the token is
  the whole input.\<close>

theorem literal_string_balanced:
  "(lexeme_at s q \<and> buf s ! q = CHR ''('' \<and> k \<le> length (drop (Suc q) (buf s))
      \<and> nesting 1 (take k (drop (Suc q) (buf s))) = 0
      \<and> (\<forall>j<k. nesting 1 (take j (drop (Suc q) (buf s))) \<noteq> 0)
    \<longrightarrow> next_token s =
          (Inr (Some \<lparr>byte_offset = int q, token_type = STRING,
                      text_str = take (Suc k) (drop q (buf s))\<rparr>),
           s\<lparr>pos := Suc q + k\<rparr>)
        \<and> last (take (Suc k) (drop q (buf s))) = CHR '')'')
   \<and> next_token \<lparr>buf = hello, pos = 0\<rparr> =
       (Inr (Some \<lparr>byte_offset = 0, token_type = STRING, text_str = hello\<rparr>),
        \<lparr>buf = hello, pos = length hello\<rparr>)"
proof (intro conjI impI)
  assume a: "lexeme_at s q \<and> buf s ! q = CHR ''('' \<and> k \<le> length (drop (Suc q) (buf s))
      \<and> nesting 1 (take k (drop (Suc q) (buf s))) = 0
      \<and> (\<forall>j<k. nesting 1 (take j (drop (Suc q) (buf s))) \<noteq> 0)"
  then show "next_token s =
          (Inr (Some \<lparr>byte_offset = int q, token_type = STRING,
                      text_str = take (Suc k) (drop q (buf s))\<rparr>),
           s\<lparr>pos := Suc q + k\<rparr>)"
    using terminated_string[of s q k] terminated_string_last(1)[of s q k] by simp
  from a show "last (take (Suc k) (drop q (buf s))) = CHR '')''"
    using terminated_string_last(2)[of s q k] by simp
next
  show "next_token \<lparr>buf = hello, pos = 0\<rparr> =
       (Inr (Some \<lparr>byte_offset = 0, token_type = STRING, text_str = hello\<rparr>),
        \<lparr>buf = hello, pos = length hello\<rparr>)"
    by code_simp
qed

theorem literal_string_balanced_witness:
  "lexeme_at \<lparr>buf = ''  (a(b)'' @ [backslash] @ '')c)d'', pos = 1\<rparr> 2
   \<and> buf \<lparr>buf = ''  (a(b)'' @ [backslash] @ '')c)d'', pos = 1\<rparr> ! 2 = CHR ''(''
   \<and> nesting 1 (take 8 (drop 3 (''  (a(b)'' @ [backslash] @ '')c)d''))) = 0
   \<and> list_all (\<lambda>j. nesting 1 (take j (drop 3 (''  (a(b)'' @ [backslash] @ '')c)d''))) \<noteq> 0) [0..<8]
   \<and> next_token \<lparr>buf = ''  (a(b)'' @ [backslash] @ '')c)d'', pos = 1\<rparr> =
       (Inr (Some \<lparr>byte_offset = 2, token_type = STRING,
                   text_str = ''(a(b)'' @ [backslash] @ '')c)''\<rparr>),
        \<lparr>buf = ''  (a(b)'' @ [backslash] @ '')c)d'', pos = 11\<rparr>)"
proof -
  let ?b = "''  (a(b)'' @ [backslash] @ '')c)d''"
  let ?s = "\<lparr>buf = ?b, pos = 1\<rparr>"
  have a: "lexeme_at ?s 2" by (simp add: lexeme_at_def is_whitespace_def)
  have b: "buf ?s ! 2 = CHR ''(''" by simp
  have c: "nesting 1 (take 8 (drop 3 ?b)) = 0" by code_simp
  have d: "\<forall>j<8. nesting 1 (take j (drop 3 ?b)) \<noteq> 0" unfolding all_less_upt by code_simp
  have e: "(8::nat) \<le> length (drop (Suc 2) (buf ?s))" by simp
  have f: "drop 2 ?b = ''(a(b)'' @ [backslash] @ '')c)d''" by simp
  from literal_string_balanced[of ?s 2 8] a b c d e
  have "next_token ?s =
       (Inr (Some \<lparr>byte_offset = 2, token_type = STRING, text_str = take 9 (drop 2 ?b)\<rparr>),
        ?s\<lparr>pos := 11\<rparr>)"
    by (simp add: numeral_3_eq_3 del: drop_Suc_Cons)
  moreover have "list_all (\<lambda>j. nesting 1 (take j (drop 3 ?b)) \<noteq> 0) [0..<8]"
    by code_simp
  ultimately show ?thesis using a b c by (simp add: f)
qed

text \<open>Claim C8. When \<open>next_token\<close> returns a token \<open>t\<close>, an absolute seek to
  \<open>byte_offset t\<close>, from any position of the same source, succeeds, and the next
  call of \<open>next_token\<close> does what the first did: it returns \<open>t\<close>, with the same
  offset, type and text, and leaves the source in the same state. And after any
  number \<open>m\<close> of calls, an absolute seek to an offset that \<open>tell\<close> returned
  earlier puts the source back in the state it had then, so the calls that follow
  return the same sequence of results.\<close>

theorem reseek_reproduces:
  "(fst (next_token s) = Inr (Some t) \<and> buf s' = buf s \<longrightarrow>
      fst (seek s' (byte_offset t) SEEK_SET) = Inr (byte_offset t)
      \<and> next_token (snd (seek s' (byte_offset t) SEEK_SET)) = next_token s)
   \<and> snd (seek (after_calls m s) (tell s) SEEK_SET) = s
   \<and> tokens n (snd (seek (after_calls m s) (tell s) SEEK_SET)) = tokens n s"
  using reseek_token[of s t s'] by (auto simp add: seek_set seek_back)

theorem reseek_reproduces_witness:
  "fst (next_token \<lparr>buf = ''12  /Name 3'', pos = 2\<rparr>) =
      Inr (Some \<lparr>byte_offset = 4, token_type = NAME, text_str = ''/Name''\<rparr>)
   \<and> fst (seek \<lparr>buf = ''12  /Name 3'', pos = 11\<rparr> 4 SEEK_SET) = Inr 4
   \<and> next_token (snd (seek \<lparr>buf = ''12  /Name 3'', pos = 11\<rparr> 4 SEEK_SET)) =
       next_token \<lparr>buf = ''12  /Name 3'', pos = 2\<rparr>"
proof -
  let ?s = "\<lparr>buf = ''12  /Name 3'', pos = 2\<rparr>"
  let ?t = "\<lparr>byte_offset = 4, token_type = NAME, text_str = ''/Name''\<rparr>"
  have a: "fst (next_token ?s) = Inr (Some ?t)" by code_simp
  from a reseek_reproduces[of ?s ?t "\<lparr>buf = ''12  /Name 3'', pos = 11\<rparr>"]
  show ?thesis by simp
qed

text \<open>Claim C9. \<open>next_non_comment_token\<close> returns what the first call of \<open>next_token\<close>
  that does not return a \<open>COMMENT\<close> token returns (a token, the end of the stream, or
  the failure), the calls before it having returned \<open>COMMENT\<close> tokens; its result is
  never a \<open>COMMENT\<close> token. On the input \<^verbatim>\<open>% a comment\<close>, line feed,
  \<^verbatim>\<open>123\<close>, \<open>next_token\<close> returns the \<open>COMMENT\<close> token with the text
  \<^verbatim>\<open>% a comment\<close>, the position left on the line feed, then the \<open>NUMBER\<close>
  token \<open>123\<close>; \<open>next_non_comment_token\<close> returns that \<open>NUMBER\<close> token at once.\<close>

theorem non_comment_token_skips_comments:
  "(\<exists>n. (\<forall>i<n. is_comment (next_token (after_calls i s)))
       \<and> next_non_comment_token s = next_token (after_calls n s)
       \<and> \<not> is_comment (next_non_comment_token s))
   \<and> next_token \<lparr>buf = comment_input, pos = 0\<rparr> =
       (Inr (Some \<lparr>byte_offset = 0, token_type = COMMENT, text_str = ''% a comment''\<rparr>),
        \<lparr>buf = comment_input, pos = 11\<rparr>)
   \<and> next_token \<lparr>buf = comment_input, pos = 11\<rparr> =
       (Inr (Some \<lparr>byte_offset = 12, token_type = NUMBER, text_str = ''123''\<rparr>),
        \<lparr>buf = comment_input, pos = 15\<rparr>)
   \<and> next_non_comment_token \<lparr>buf = comment_input, pos = 0\<rparr> =
       (Inr (Some \<lparr>byte_offset = 12, token_type = NUMBER, text_str = ''123''\<rparr>),
        \<lparr>buf = comment_input, pos = 15\<rparr>)"
proof (intro conjI)
  show "\<exists>n. (\<forall>i<n. is_comment (next_token (after_calls i s)))
       \<and> next_non_comment_token s = next_token (after_calls n s)
       \<and> \<not> is_comment (next_non_comment_token s)"
    by (rule first_non_comment)
  show "next_token \<lparr>buf = comment_input, pos = 0\<rparr> =
       (Inr (Some \<lparr>byte_offset = 0, token_type = COMMENT, text_str = ''% a comment''\<rparr>),
        \<lparr>buf = comment_input, pos = 11\<rparr>)"
    by code_simp
  show "next_token \<lparr>buf = comment_input, pos = 11\<rparr> =
       (Inr (Some \<lparr>byte_offset = 12, token_type = NUMBER, text_str = ''123''\<rparr>),
        \<lparr>buf = comment_input, pos = 15\<rparr>)"
    by code_simp
  show "next_non_comment_token \<lparr>buf = comment_input, pos = 0\<rparr> =
       (Inr (Some \<lparr>byte_offset = 12, token_type = NUMBER, text_str = ''123''\<rparr>),
        \<lparr>buf = comment_input, pos = 15\<rparr>)"
    by code_simp
qed

theorem non_comment_token_skips_comments_witness:
  "is_comment (next_token (after_calls 0 \<lparr>buf = comment_input, pos = 0\<rparr>))
   \<and> next_non_comment_token \<lparr>buf = comment_input, pos = 0\<rparr> =
       next_token (after_calls 1 \<lparr>buf = comment_input, pos = 0\<rparr>)
   \<and> \<not> is_comment (next_non_comment_token \<lparr>buf = comment_input, pos = 0\<rparr>)"
  using non_comment_token_skips_comments[of "\<lparr>buf = comment_input, pos = 0\<rparr>"]
  by (simp add: is_comment_def)

text \<open>Claim C10. A call of \<open>next_token\<close> ends, for every source and every position:
  over the loops written as \<open>while\<close> loops that need not end, \<open>next_token_opt\<close>
  returns a result, the one of \<open>next_token\<close>. So does each loop, from any state: the
  whitespace skip, the name loop, the comment, number and other loops
  (\<open>scan_while_opt\<close>), the hex string loop and the literal string loop. In the
  total functions, the measure that goes down with each iteration is the number
  of bytes left after the position (the last iteration of a loop that tests
  \<open>ch\<close> reads nothing and ends the loop).\<close>

theorem next_token_terminates:
  "next_token_opt s = Some (next_token s)
   \<and> ws_while ch s = Some (ws_loop ch s)
   \<and> name_while out_str s = Some (name_loop out_str s)
   \<and> scan_while_opt P ch out_str s = Some (scan_while P ch out_str s)
   \<and> hex_while out_str s = Some (hex_loop out_str s)
   \<and> string_while n out_str s = Some (string_loop n out_str s)"
  unfolding next_token_opt_def next_token_def
  by (simp add: ws_while_returns name_while_returns scan_while_opt_returns hex_while_returns
      string_while_returns dispatch_opt_returns split: prod.splits)

end
